theory Spec2Isabelle
  imports Main "HOL-Library.AList" "HOL-Library.Sublist" "HOL-Library.Multiset"
begin

section \<open>JavaScript values and the operations the utilities use on them\<close>

text \<open>
  The utilities of \<^verbatim>\<open>src/utils/bilingual.ts\<close> and \<^verbatim>\<open>src/utils/schedule-validator.ts\<close>
  receive the result of \<^verbatim>\<open>JSON.parse\<close> under an unchecked cast, and probe its shape at
  run time (\<^verbatim>\<open>typeof\<close>, \<^verbatim>\<open>Array.isArray\<close>, truthiness). The model therefore works on
  untyped values.

  Conventions of the model:
  \<^item> a string is a list of 8-bit units (\<open>string\<close>); text outside ASCII is its UTF-8 encoding;
    white space is the ASCII white space, and \<^verbatim>\<open>toLowerCase\<close> maps the letters A to Z only;
  \<^item> a number is an integer (only its truthiness, its type and its decimal rendering are used);
  \<^item> an object is the list of its own properties in insertion order; \<^verbatim>\<open>JSON.parse\<close> yields
    lists with distinct keys; members inherited from \<^verbatim>\<open>Object.prototype\<close> are not modelled;
  \<^item> every array or object occurrence is a reference of its own, as in the output of
    \<^verbatim>\<open>JSON.parse\<close>;
  \<^item> the only exception these functions can raise on such values is a \<^verbatim>\<open>TypeError\<close>
    (a property read on \<^verbatim>\<open>null\<close> or \<^verbatim>\<open>undefined\<close>, a call of a method the value does not
    have); the engine's wording after the error's name is not modelled.
\<close>

datatype json =
    JUndefined
  | JNull
  | JBool bool
  | JNum int
  | JStr string
  | JArr "json list"
  | JObj "(string \<times> json) list"

datatype js_error = TypeError

datatype js_type = TUndefined | TObject | TBoolean | TNumber | TString

fun typeof :: "json \<Rightarrow> js_type" where
  "typeof JUndefined = TUndefined"
| "typeof JNull = TObject"
| "typeof (JBool _) = TBoolean"
| "typeof (JNum _) = TNumber"
| "typeof (JStr _) = TString"
| "typeof (JArr _) = TObject"
| "typeof (JObj _) = TObject"

fun truthy :: "json \<Rightarrow> bool" where
  "truthy JUndefined = False"
| "truthy JNull = False"
| "truthy (JBool b) = b"
| "truthy (JNum n) = (n \<noteq> 0)"
| "truthy (JStr s) = (s \<noteq> [])"
| "truthy (JArr _) = True"
| "truthy (JObj _) = True"

fun nullish :: "json \<Rightarrow> bool" where
  "nullish JUndefined = True"
| "nullish JNull = True"
| "nullish _ = False"

fun isArray :: "json \<Rightarrow> bool" where
  "isArray (JArr _) = True"
| "isArray _ = False"

text \<open>\<^verbatim>\<open>a || b\<close> on values.\<close>

definition js_or :: "json \<Rightarrow> json \<Rightarrow> json" where
  "js_or a b = (if truthy a then a else b)"

subsection \<open>Decimal rendering and string conversion\<close>

definition digit_char :: "nat \<Rightarrow> char" where
  "digit_char d = char_of (48 + d)"

function str_of_nat :: "nat \<Rightarrow> string" where
  "str_of_nat n = (if n < 10 then [digit_char n] else str_of_nat (n div 10) @ [digit_char (n mod 10)])"
  by pat_completeness auto
termination
  by (relation "measure id") auto

declare str_of_nat.simps [simp del]

definition str_of_int :: "int \<Rightarrow> string" where
  "str_of_int i = (if i < 0 then CHR ''-'' # str_of_nat (nat (- i)) else str_of_nat (nat i))"

fun join_comma :: "string list \<Rightarrow> string" where
  "join_comma [] = []"
| "join_comma [s] = s"
| "join_comma (s # t # ss) = s @ CHR '','' # join_comma (t # ss)"

text \<open>\<^verbatim>\<open>String(v)\<close> and the conversion inside a template literal \<^verbatim>\<open>`${v}`\<close>.\<close>

fun to_str :: "json \<Rightarrow> string" where
  "to_str JUndefined = ''undefined''"
| "to_str JNull = ''null''"
| "to_str (JBool b) = (if b then ''true'' else ''false'')"
| "to_str (JNum n) = str_of_int n"
| "to_str (JStr s) = s"
| "to_str (JArr xs) = join_comma (map (\<lambda>x. if nullish x then [] else to_str x) xs)"
| "to_str (JObj _) = ''[object Object]''"

subsection \<open>Property access\<close>

text \<open>The index an array or string property name denotes: the canonical decimal of a position.\<close>

definition index_of_key :: "nat \<Rightarrow> string \<Rightarrow> nat option" where
  "index_of_key n k = find (\<lambda>i. str_of_nat i = k) [0..<n]"

text \<open>\<^verbatim>\<open>v[k]\<close> on a value that is neither \<^verbatim>\<open>null\<close> nor \<^verbatim>\<open>undefined\<close>.\<close>

fun prop_of :: "json \<Rightarrow> string \<Rightarrow> json" where
  "prop_of (JObj kvs) k = (case map_of kvs k of Some v \<Rightarrow> v | None \<Rightarrow> JUndefined)"
| "prop_of (JArr xs) k =
     (case index_of_key (length xs) k of
        Some i \<Rightarrow> xs ! i
      | None \<Rightarrow> if k = ''length'' then JNum (int (length xs)) else JUndefined)"
| "prop_of (JStr s) k =
     (case index_of_key (length s) k of
        Some i \<Rightarrow> JStr [s ! i]
      | None \<Rightarrow> if k = ''length'' then JNum (int (length s)) else JUndefined)"
| "prop_of _ k = JUndefined"

text \<open>\<^verbatim>\<open>v.k\<close> in general: a \<^verbatim>\<open>TypeError\<close> on \<^verbatim>\<open>null\<close> and \<^verbatim>\<open>undefined\<close>.\<close>

definition get_prop :: "json \<Rightarrow> string \<Rightarrow> js_error + json" where
  "get_prop v k = (if nullish v then Inl TypeError else Inr (prop_of v k))"

text \<open>\<^verbatim>\<open>k in v\<close> for a non-null value of type object.\<close>

fun has_key :: "string \<Rightarrow> json \<Rightarrow> bool" where
  "has_key k (JObj kvs) = (k \<in> fst ` set kvs)"
| "has_key k (JArr xs) = (index_of_key (length xs) k \<noteq> None \<or> k = ''length'')"
| "has_key k _ = False"

text \<open>\<^verbatim>\<open>Object.keys\<close>, \<^verbatim>\<open>Object.values\<close> and the own properties an object spread copies.\<close>

fun own_props :: "json \<Rightarrow> (string \<times> json) list" where
  "own_props (JObj kvs) = kvs"
| "own_props (JArr xs) = map (\<lambda>i. (str_of_nat i, xs ! i)) [0..<length xs]"
| "own_props (JStr s) = map (\<lambda>i. (str_of_nat i, JStr [s ! i])) [0..<length s]"
| "own_props _ = []"

definition object_keys :: "json \<Rightarrow> string list" where
  "object_keys v = map fst (own_props v)"

definition object_values :: "json \<Rightarrow> json list" where
  "object_values v = map snd (own_props v)"

text \<open>Sequencing of computations that may raise.\<close>

definition try_bind :: "'e + 'a \<Rightarrow> ('a \<Rightarrow> 'e + 'b) \<Rightarrow> 'e + 'b" where
  "try_bind m f = (case m of Inl e \<Rightarrow> Inl e | Inr v \<Rightarrow> f v)"

subsection \<open>Strings\<close>

definition is_space :: "char \<Rightarrow> bool" where
  "is_space c = (c \<in> {CHR '' '', CHR 0x09, CHR 0x0A, CHR 0x0B, CHR 0x0C, CHR 0x0D})"

definition trim :: "string \<Rightarrow> string" where
  "trim s = rev (dropWhile is_space (rev (dropWhile is_space s)))"

definition quoted :: "string \<Rightarrow> string" where
  "quoted s = CHR 0x27 # s @ [CHR 0x27]"

section \<open>Validation results\<close>

datatype severity = Error | Warning

record ValidationError =
  field :: string
  message :: string
  severity :: severity
  ctx :: "string option"

record ValidationResult =
  isValid :: bool
  errors :: "ValidationError list"
  warnings :: "ValidationError list"

definition mk_error :: "string \<Rightarrow> string \<Rightarrow> string option \<Rightarrow> ValidationError" where
  "mk_error f m c = \<lparr>field = f, message = m, severity = Error, ctx = c\<rparr>"

definition mk_warning :: "string \<Rightarrow> string \<Rightarrow> string option \<Rightarrow> ValidationError" where
  "mk_warning f m c = \<lparr>field = f, message = m, severity = Warning, ctx = c\<rparr>"

section \<open>Structural validation (bilingual.ts)\<close>

text \<open>\<^verbatim>\<open>v && typeof v === 'string' && v.trim()\<close>, read as a condition.\<close>

fun has_language :: "json \<Rightarrow> bool" where
  "has_language (JStr s) = (s \<noteq> [] \<and> trim s \<noteq> [])"
| "has_language _ = False"

text \<open>\<^verbatim>\<open>typeof v === 'string' && !v.trim()\<close>.\<close>

fun blank_string :: "json \<Rightarrow> bool" where
  "blank_string (JStr s) = (trim s = [])"
| "blank_string _ = False"

definition validateBilingualText :: "json \<Rightarrow> string \<Rightarrow> bool \<Rightarrow> ValidationResult" where
  "validateBilingualText textObj fieldName required =
    (if required \<and> (\<not> truthy textObj \<or> blank_string textObj) then
       \<lparr>isValid = False,
        errors = [mk_error fieldName (''Required field '' @ quoted fieldName @ '' is missing or empty'') None],
        warnings = []\<rparr>
     else if \<not> truthy textObj then
       \<lparr>isValid = True, errors = [], warnings = []\<rparr>
     else if typeof textObj = TString then
       (if \<not> blank_string textObj then
          \<lparr>isValid = True, errors = [],
           warnings = [mk_warning fieldName
             (''Field '' @ quoted fieldName @
              '' is a string but should be bilingual object for full internationalization support'') None]\<rparr>
        else
          \<lparr>isValid = False,
           errors = [mk_error fieldName (''Field '' @ quoted fieldName @ '' is an empty string'') None],
           warnings = []\<rparr>)
     else if typeof textObj = TObject then
       (let hasEn = has_language (prop_of textObj ''en'');
            hasZh = has_language (prop_of textObj ''zh'')
        in if \<not> hasEn \<and> \<not> hasZh then
             \<lparr>isValid = False,
              errors = [mk_error fieldName
                (''Field '' @ quoted fieldName @
                 '' must have at least one non-empty language version (en or zh)'') None],
              warnings = []\<rparr>
           else
             \<lparr>isValid = True, errors = [],
              warnings =
                (if \<not> hasEn then [mk_warning fieldName
                   (''Field '' @ quoted fieldName @ '' is missing English translation'') None] else []) @
                (if \<not> hasZh then [mk_warning fieldName
                   (''Field '' @ quoted fieldName @ '' is missing Chinese translation'') None] else [])\<rparr>)
     else
       \<lparr>isValid = True, errors = [], warnings = []\<rparr>)"

text \<open>\<^verbatim>\<open>!v || typeof v !== 'string' || !v.trim()\<close>: the test for a missing identifier or image.\<close>

definition not_nonempty_string :: "json \<Rightarrow> bool" where
  "not_nonempty_string v = (\<not> truthy v \<or> typeof v \<noteq> TString \<or> blank_string v)"

definition validateBilingualSpeaker :: "json \<Rightarrow> string \<Rightarrow> js_error + ValidationResult" where
  "validateBilingualSpeaker speaker context =
    try_bind (get_prop speaker ''id'') (\<lambda>sid.
    try_bind (get_prop speaker ''image'') (\<lambda>image.
    try_bind (get_prop speaker ''tags'') (\<lambda>tags.
    try_bind (get_prop speaker ''name'') (\<lambda>name.
    try_bind (get_prop speaker ''roleOrg'') (\<lambda>roleOrg.
      let nameValidation = validateBilingualText name ''speaker.name'' True;
          roleValidation = validateBilingualText roleOrg ''speaker.roleOrg'' True;
          errs =
            (if not_nonempty_string sid
             then [mk_error ''speaker.id'' ''Speaker ID is required and must be a non-empty string''
                     (Some context)] else []) @
            errors nameValidation @ errors roleValidation;
          warns =
            (if not_nonempty_string image
             then [mk_warning ''speaker.image'' ''Speaker image is missing'' (Some context)] else []) @
            (if \<not> isArray tags
             then [mk_warning ''speaker.tags'' ''Speaker tags should be an array'' (Some context)] else []) @
            warnings nameValidation @ warnings roleValidation
      in Inr \<lparr>isValid = (errs = []), errors = errs, warnings = warns\<rparr>)))))"

text \<open>
  A \<^verbatim>\<open>forEach\<close> whose body validates the element at each index and appends its errors and
  warnings; an exception in a body ends the loop and the calling function.
\<close>

fun validate_each ::
  "(json \<Rightarrow> nat \<Rightarrow> js_error + ValidationResult) \<Rightarrow> nat \<Rightarrow> json list \<Rightarrow>
   js_error + (ValidationError list \<times> ValidationError list)" where
  "validate_each f i [] = Inr ([], [])"
| "validate_each f i (x # xs) =
     try_bind (f x i) (\<lambda>r.
     try_bind (validate_each f (Suc i) xs) (\<lambda>(es, ws).
       Inr (errors r @ es, warnings r @ ws)))"

definition validateBilingualSession :: "json \<Rightarrow> string \<Rightarrow> js_error + ValidationResult" where
  "validateBilingualSession session context =
    try_bind (get_prop session ''timeSlot'') (\<lambda>timeSlot.
    try_bind (get_prop session ''date'') (\<lambda>date.
    try_bind (get_prop session ''title'') (\<lambda>title.
    try_bind (get_prop session ''content'') (\<lambda>content.
    try_bind (get_prop session ''room'') (\<lambda>room.
    try_bind (get_prop session ''speakers'') (\<lambda>speakers.
      let dateValidation = validateBilingualText date ''session.date'' True;
          titleValidation = validateBilingualText title ''session.title'' True;
          contentValidation = validateBilingualText content ''session.content'' True;
          roomValidation =
            (if truthy room then validateBilingualText room ''session.room'' False
             else \<lparr>isValid = True, errors = [], warnings = []\<rparr>);
          errs0 =
            (if not_nonempty_string timeSlot
             then [mk_error ''session.timeSlot''
                     ''Session timeSlot is required and must be a non-empty string'' (Some context)]
             else []) @
            errors dateValidation @ errors titleValidation @ errors contentValidation @
            errors roomValidation;
          warns0 =
            warnings dateValidation @ warnings titleValidation @ warnings contentValidation @
            warnings roomValidation
      in (case speakers of
            JArr sps \<Rightarrow>
              try_bind
                (validate_each
                   (\<lambda>speaker index.
                      validateBilingualSpeaker speaker (context @ ''.speakers['' @ str_of_nat index @ '']''))
                   0 sps)
                (\<lambda>(es, ws).
                   Inr \<lparr>isValid = (errs0 @ es = []), errors = errs0 @ es, warnings = warns0 @ ws\<rparr>)
          | _ \<Rightarrow>
              (let errs = errs0 @ [mk_error ''session.speakers'' ''Session speakers must be an array''
                                     (Some context)]
               in Inr \<lparr>isValid = (errs = []), errors = errs, warnings = warns0\<rparr>))))))))"

definition validateBilingualCategory :: "json \<Rightarrow> string \<Rightarrow> js_error + ValidationResult" where
  "validateBilingualCategory category context =
    try_bind (get_prop category ''id'') (\<lambda>cid.
    try_bind (get_prop category ''name'') (\<lambda>name.
    try_bind (get_prop category ''room'') (\<lambda>room.
      let nameValidation = validateBilingualText name ''category.name'' True;
          roomValidation = validateBilingualText room ''category.room'' True;
          errs =
            (if not_nonempty_string cid
             then [mk_error ''category.id'' ''Category ID is required and must be a non-empty string''
                     (Some context)] else []) @
            errors nameValidation @ errors roomValidation;
          warns = warnings nameValidation @ warnings roomValidation
      in Inr \<lparr>isValid = (errs = []), errors = errs, warnings = warns\<rparr>)))"

definition validateBilingualDay :: "json \<Rightarrow> string \<Rightarrow> js_error + ValidationResult" where
  "validateBilingualDay day context =
    try_bind (get_prop day ''date'') (\<lambda>date.
    try_bind (get_prop day ''title'') (\<lambda>title.
    try_bind (get_prop day ''url'') (\<lambda>url.
      let dateValidation = validateBilingualText date ''day.date'' True;
          titleValidation = validateBilingualText title ''day.title'' True;
          urlValidation = validateBilingualText url ''day.url'' True;
          errs = errors dateValidation @ errors titleValidation @ errors urlValidation;
          warns = warnings dateValidation @ warnings titleValidation @ warnings urlValidation
      in Inr \<lparr>isValid = (errs = []), errors = errs, warnings = warns\<rparr>)))"

subsection \<open>Sets of values\<close>

text \<open>
  A \<^verbatim>\<open>Set\<close> keeps its members in insertion order and compares them with SameValueZero:
  primitives by value, arrays and objects by reference, so that two occurrences never
  compare equal.
\<close>

fun same_value_zero :: "json \<Rightarrow> json \<Rightarrow> bool" where
  "same_value_zero (JArr _) _ = False"
| "same_value_zero (JObj _) _ = False"
| "same_value_zero x y = (x = y)"

definition set_has :: "json list \<Rightarrow> json \<Rightarrow> bool" where
  "set_has S x = list_ex (same_value_zero x) S"

definition set_add :: "json list \<Rightarrow> json \<Rightarrow> json list" where
  "set_add S x = (if set_has S x then S else S @ [x])"

definition new_set :: "json list \<Rightarrow> json list" where
  "new_set xs = foldl set_add [] xs"

text \<open>\<^verbatim>\<open>xs.map(f)\<close> with a callback that may raise.\<close>

fun try_map :: "('a \<Rightarrow> 'e + 'b) \<Rightarrow> 'a list \<Rightarrow> 'e + 'b list" where
  "try_map f [] = Inr []"
| "try_map f (x # xs) =
     try_bind (f x) (\<lambda>y. try_bind (try_map f xs) (\<lambda>ys. Inr (y # ys)))"

text \<open>\<^verbatim>\<open>new Set(data.categories?.map(cat => cat.id) || [])\<close>, given \<^verbatim>\<open>data.categories\<close>.\<close>

definition category_id_set :: "json \<Rightarrow> js_error + json list" where
  "category_id_set categories =
    (if nullish categories then Inr (new_set [])
     else case categories of
            JArr cs \<Rightarrow> try_bind (try_map (\<lambda>cat. get_prop cat ''id'') cs) (\<lambda>ids. Inr (new_set ids))
          | _ \<Rightarrow> Inl TypeError)"

subsection \<open>The whole document\<close>

definition duplicate_category_message :: "json \<Rightarrow> string" where
  "duplicate_category_message cid = ''Duplicate category ID '' @ quoted (to_str cid) @ '' found''"

definition duplicate_category_error :: "json \<Rightarrow> nat \<Rightarrow> ValidationError" where
  "duplicate_category_error cid index =
     mk_error ''category.id'' (duplicate_category_message cid)
       (Some (''categories['' @ str_of_nat index @ '']''))"

text \<open>The loop over the categories, with the set of the identifiers seen so far.\<close>

fun validate_categories ::
  "nat \<Rightarrow> json list \<Rightarrow> json list \<Rightarrow> js_error + (ValidationError list \<times> ValidationError list)" where
  "validate_categories index categoryIds [] = Inr ([], [])"
| "validate_categories index categoryIds (category # rest) =
     try_bind (validateBilingualCategory category (''categories['' @ str_of_nat index @ '']''))
       (\<lambda>categoryValidation.
     try_bind (get_prop category ''id'') (\<lambda>cid.
       let dup = (if truthy cid \<and> set_has categoryIds cid
                  then [duplicate_category_error cid index] else []);
           categoryIds' = (if truthy cid \<and> \<not> set_has categoryIds cid
                           then categoryIds @ [cid] else categoryIds)
       in try_bind (validate_categories (Suc index) categoryIds' rest) (\<lambda>(es, ws).
            Inr (errors categoryValidation @ dup @ es, warnings categoryValidation @ ws))))"

text \<open>The value under one key of \<^verbatim>\<open>sessions\<close>: an array of sessions, or an error.\<close>

definition validate_session_bucket ::
  "json \<Rightarrow> string \<Rightarrow> js_error + (ValidationError list \<times> ValidationError list)" where
  "validate_session_bucket sessionsObj categoryId =
     (case prop_of sessionsObj categoryId of
        JArr sessions \<Rightarrow>
          validate_each
            (\<lambda>session index.
               validateBilingualSession session
                 (''sessions.'' @ categoryId @ ''['' @ str_of_nat index @ '']''))
            0 sessions
      | _ \<Rightarrow>
          Inr ([mk_error (''sessions.'' @ categoryId)
                  (''Sessions for category '' @ quoted categoryId @ '' must be an array'') None],
               []))"

definition orphan_session_warning :: "string \<Rightarrow> ValidationError" where
  "orphan_session_warning categoryId =
     mk_warning ''sessions''
       (''Session category '' @ quoted categoryId @ '' not found in categories array'')
       (Some (''sessions.'' @ categoryId))"

text \<open>The loop over the keys of \<^verbatim>\<open>sessions\<close>.\<close>

fun validate_session_keys ::
  "json \<Rightarrow> json list \<Rightarrow> string list \<Rightarrow>
   js_error + (ValidationError list \<times> ValidationError list)" where
  "validate_session_keys sessionsObj categoryIds [] = Inr ([], [])"
| "validate_session_keys sessionsObj categoryIds (categoryId # rest) =
     (let orphan =
            (if \<not> set_has categoryIds (JStr categoryId)
             then [orphan_session_warning categoryId] else [])
      in try_bind (validate_session_bucket sessionsObj categoryId) (\<lambda>(es, ws).
         try_bind (validate_session_keys sessionsObj categoryIds rest) (\<lambda>(es', ws').
           Inr (es @ es', orphan @ ws @ ws'))))"

text \<open>The three blocks of the document validator: days, categories, sessions.\<close>

definition validate_days_block ::
  "json \<Rightarrow> js_error + (ValidationError list \<times> ValidationError list)" where
  "validate_days_block scheduleData =
     (case prop_of scheduleData ''days'' of
        JArr days \<Rightarrow>
          validate_each
            (\<lambda>day index. validateBilingualDay day (''days['' @ str_of_nat index @ '']'')) 0 days
      | _ \<Rightarrow> Inr ([mk_error ''scheduleData.days'' ''Days must be an array'' None], []))"

definition validate_categories_block ::
  "json \<Rightarrow> js_error + (ValidationError list \<times> ValidationError list)" where
  "validate_categories_block scheduleData =
     (case prop_of scheduleData ''categories'' of
        JArr categories \<Rightarrow> validate_categories 0 [] categories
      | _ \<Rightarrow> Inr ([mk_error ''scheduleData.categories'' ''Categories must be an array'' None], []))"

definition validate_sessions_block ::
  "json \<Rightarrow> js_error + (ValidationError list \<times> ValidationError list)" where
  "validate_sessions_block scheduleData =
     (let sessionsObj = prop_of scheduleData ''sessions'' in
      if \<not> truthy sessionsObj \<or> typeof sessionsObj \<noteq> TObject then
        Inr ([mk_error ''scheduleData.sessions'' ''Sessions must be an object'' None], [])
      else
        try_bind (category_id_set (prop_of scheduleData ''categories'')) (\<lambda>categoryIds.
          validate_session_keys sessionsObj categoryIds (object_keys sessionsObj)))"

definition validateBilingualScheduleData :: "json \<Rightarrow> js_error + ValidationResult" where
  "validateBilingualScheduleData scheduleData =
    (if \<not> truthy scheduleData \<or> typeof scheduleData \<noteq> TObject then
       Inr \<lparr>isValid = False,
            errors = [mk_error ''scheduleData'' ''Schedule data must be a valid object'' None],
            warnings = []\<rparr>
     else
       try_bind (validate_days_block scheduleData) (\<lambda>(dayErrors, dayWarnings).
       try_bind (validate_categories_block scheduleData) (\<lambda>(categoryErrors, categoryWarnings).
       try_bind (validate_sessions_block scheduleData) (\<lambda>(sessionErrors, sessionWarnings).
         let errs = dayErrors @ categoryErrors @ sessionErrors;
             warns = dayWarnings @ categoryWarnings @ sessionWarnings
         in Inr \<lparr>isValid = (errs = []), errors = errs, warnings = warns\<rparr>))))"

section \<open>Business rules (schedule-validator.ts)\<close>

subsection \<open>The time-slot format\<close>

definition is_digit :: "char \<Rightarrow> bool" where
  "is_digit c = (48 \<le> (of_char c :: nat) \<and> (of_char c :: nat) \<le> 57)"

definition to_lower_char :: "char \<Rightarrow> char" where
  "to_lower_char c =
     (if 65 \<le> (of_char c :: nat) \<and> (of_char c :: nat) \<le> 90 then char_of ((of_char c :: nat) + 32) else c)"

definition toLowerCase :: "string \<Rightarrow> string" where
  "toLowerCase s = map to_lower_char s"

text \<open>\<^verbatim>\<open>s.includes(sub)\<close>.\<close>

fun str_includes :: "string \<Rightarrow> string \<Rightarrow> bool" where
  "str_includes [] sub = (sub = [])"
| "str_includes (c # s) sub = (prefix sub (c # s) \<or> str_includes s sub)"

text \<open>
  The fragment of regular expressions the pattern uses: a character class, a literal, a
  sequence, \<^verbatim>\<open>r?\<close> and \<^verbatim>\<open>c*\<close> on a class. \<open>rx_rest r s\<close> lists what remains of \<open>s\<close>
  after each way of matching \<open>r\<close> at its start.
\<close>

datatype rx = Cls "char \<Rightarrow> bool" | Lit char | Seq rx rx | Opt rx | StarCls "char \<Rightarrow> bool"

fun rx_rest :: "rx \<Rightarrow> string \<Rightarrow> string list" where
  "rx_rest (Cls p) s = (case s of [] \<Rightarrow> [] | c # t \<Rightarrow> if p c then [t] else [])"
| "rx_rest (Lit a) s = (case s of [] \<Rightarrow> [] | c # t \<Rightarrow> if c = a then [t] else [])"
| "rx_rest (Seq a b) s = concat (map (rx_rest b) (rx_rest a s))"
| "rx_rest (Opt a) s = rx_rest a s @ [s]"
| "rx_rest (StarCls p) s = map (\<lambda>k. drop k s) (rev [0..<Suc (length (takeWhile p s))])"

text \<open>\<^verbatim>\<open>/^r$/.test(s)\<close>.\<close>

definition rx_test :: "rx \<Rightarrow> string \<Rightarrow> bool" where
  "rx_test r s = ([] \<in> set (rx_rest r s))"

text \<open>\<^verbatim>\<open>/^\d{1,2}:\d{2}\s*-\s*\d{1,2}:\d{2}$/\<close>\<close>

definition timeRangePattern :: rx where
  "timeRangePattern =
     Seq (Seq (Cls is_digit) (Opt (Cls is_digit)))
    (Seq (Lit CHR '':'')
    (Seq (Seq (Cls is_digit) (Cls is_digit))
    (Seq (StarCls is_space)
    (Seq (Lit CHR ''-'')
    (Seq (StarCls is_space)
    (Seq (Seq (Cls is_digit) (Opt (Cls is_digit)))
    (Seq (Lit CHR '':'')
         (Seq (Cls is_digit) (Cls is_digit)))))))))"

text \<open>The two characters U+5168 U+5929 ("all day"), in UTF-8.\<close>

definition all_day_zh :: string where
  "all_day_zh = [CHR 0xE5, CHR 0x85, CHR 0xA8, CHR 0xE5, CHR 0xA4, CHR 0xA9]"

definition isValidTimeSlot :: "json \<Rightarrow> bool" where
  "isValidTimeSlot timeSlot =
     (if \<not> truthy timeSlot \<or> typeof timeSlot \<noteq> TString then False
      else
        (let trimmed = trim (to_str timeSlot) in
         if str_includes (toLowerCase trimmed) ''tbd'' \<or>
            str_includes (toLowerCase trimmed) ''all day'' \<or>
            str_includes (toLowerCase trimmed) all_day_zh
         then True
         else rx_test timeRangePattern trimmed))"

subsection \<open>Loops that push warnings and may raise\<close>

text \<open>
  \<^verbatim>\<open>xs.forEach((x, i) => body)\<close> where the body pushes warnings, updates local state and
  may raise: the result is the warnings pushed so far together with the exception or the
  final state. A warning pushed before an exception stays in the list.
\<close>

fun for_each ::
  "('a \<Rightarrow> nat \<Rightarrow> 's \<Rightarrow> 'w list \<times> (js_error + 's)) \<Rightarrow> nat \<Rightarrow> 'a list \<Rightarrow> 's \<Rightarrow>
   'w list \<times> (js_error + 's)" where
  "for_each body i [] st = ([], Inr st)"
| "for_each body i (x # xs) st =
     (case body x i st of
        (w, Inl e) \<Rightarrow> (w, Inl e)
      | (w, Inr st') \<Rightarrow> (case for_each body (Suc i) xs st' of (w', r) \<Rightarrow> (w @ w', r)))"

text \<open>\<^verbatim>\<open>v.forEach(...)\<close> on a value: only an array has the method.\<close>

definition js_forEach ::
  "json \<Rightarrow> (json \<Rightarrow> nat \<Rightarrow> 's \<Rightarrow> 'w list \<times> (js_error + 's)) \<Rightarrow> 's \<Rightarrow> 'w list \<times> (js_error + 's)" where
  "js_forEach v body st = (case v of JArr xs \<Rightarrow> for_each body 0 xs st | _ \<Rightarrow> ([], Inl TypeError))"

text \<open>\<^verbatim>\<open>v?.forEach(...)\<close>: nothing happens on \<^verbatim>\<open>null\<close> and \<^verbatim>\<open>undefined\<close>.\<close>

definition js_forEach_opt ::
  "json \<Rightarrow> (json \<Rightarrow> nat \<Rightarrow> 's \<Rightarrow> 'w list \<times> (js_error + 's)) \<Rightarrow> 's \<Rightarrow> 'w list \<times> (js_error + 's)" where
  "js_forEach_opt v body st = (if nullish v then ([], Inr st) else js_forEach v body st)"

text \<open>One statement after another inside the \<^verbatim>\<open>try\<close> block.\<close>

definition and_then ::
  "'w list \<times> (js_error + 's) \<Rightarrow> ('s \<Rightarrow> 'w list \<times> (js_error + 't)) \<Rightarrow> 'w list \<times> (js_error + 't)" where
  "and_then m k =
     (case m of
        (w, Inl e) \<Rightarrow> (w, Inl e)
      | (w, Inr st) \<Rightarrow> (case k st of (w', r) \<Rightarrow> (w @ w', r)))"

text \<open>An expression that may raise, as a statement that pushes nothing.\<close>

definition expr :: "js_error + 'a \<Rightarrow> 'w list \<times> (js_error + 'a)" where
  "expr m = ([], m)"

subsection \<open>The checks\<close>

definition orphan_warning :: "string \<Rightarrow> ValidationError" where
  "orphan_warning sessionCategoryId =
     mk_warning ''sessions''
       (''Session category '' @ quoted sessionCategoryId @ '' not found in categories array'')
       (Some ''business_rules'')"

definition no_sessions_warning :: "json \<Rightarrow> ValidationError" where
  "no_sessions_warning categoryId =
     mk_warning ''categories'' (''Category '' @ quoted (to_str categoryId) @ '' has no sessions'')
       (Some ''business_rules'')"

definition duplicate_speaker_warning :: "json \<Rightarrow> ValidationError" where
  "duplicate_speaker_warning speakerId =
     mk_warning ''speakers''
       (''Speaker ID '' @ quoted (to_str speakerId) @
        '' appears multiple times (this may be intentional for speakers with multiple sessions)'')
       (Some ''business_rules'')"

definition time_slot_warning :: "json \<Rightarrow> nat \<Rightarrow> ValidationError" where
  "time_slot_warning timeSlot index =
     mk_warning ''session.timeSlot''
       (''Session has unusual time slot format: '' @ quoted (to_str timeSlot))
       (Some (''business_rules.session['' @ str_of_nat index @ '']''))"

definition placeholder_image_warning :: "json \<Rightarrow> nat \<Rightarrow> ValidationError" where
  "placeholder_image_warning speakerId speakerIndex =
     mk_warning ''speaker.image''
       (''Speaker '' @ quoted (to_str speakerId) @ '' is using placeholder image'')
       (Some (''business_rules.speaker['' @ str_of_nat speakerIndex @ '']''))"

text \<open>Sessions whose category is not in \<^verbatim>\<open>categories\<close>.\<close>

definition check_orphans :: "json list \<Rightarrow> json \<Rightarrow> ValidationError list \<times> (js_error + unit)" where
  "check_orphans categoryIds sessionsVal =
     for_each
       (\<lambda>sessionCategoryId i st.
          (if \<not> set_has categoryIds (JStr sessionCategoryId)
           then [orphan_warning sessionCategoryId] else [], Inr st))
       0 (object_keys (js_or sessionsVal (JObj []))) ()"

text \<open>Categories without sessions; \<^verbatim>\<open>scheduleData.sessions[categoryId]\<close> is read unguarded.\<close>

definition check_empty_categories ::
  "json list \<Rightarrow> json \<Rightarrow> ValidationError list \<times> (js_error + unit)" where
  "check_empty_categories categoryIds sessionsVal =
     for_each
       (\<lambda>categoryId i st.
          case get_prop sessionsVal (to_str categoryId) of
            Inl e \<Rightarrow> ([], Inl e)
          | Inr v \<Rightarrow>
              (if \<not> truthy v \<or> prop_of v ''length'' = JNum 0
               then [no_sessions_warning categoryId] else [], Inr st))
       0 categoryIds ()"

text \<open>The identifiers seen and the identifiers seen twice, as the traversal leaves them.\<close>

definition note_speaker_id :: "json \<Rightarrow> json list \<times> json list \<Rightarrow> json list \<times> json list" where
  "note_speaker_id sid st =
     (case st of (speakerIds, duplicateSpeakers) \<Rightarrow>
        if truthy sid then
          (if set_has speakerIds sid then (speakerIds, set_add duplicateSpeakers sid)
           else (speakerIds @ [sid], duplicateSpeakers))
        else (speakerIds, duplicateSpeakers))"

definition collect_speaker_ids ::
  "json \<Rightarrow> ValidationError list \<times> (js_error + json list \<times> json list)" where
  "collect_speaker_ids sessionsVal =
     for_each
       (\<lambda>sessions i st.
          js_forEach sessions
            (\<lambda>session j st.
               and_then (expr (get_prop session ''speakers'')) (\<lambda>speakers.
                 js_forEach_opt speakers
                   (\<lambda>speaker k st.
                      and_then (expr (get_prop speaker ''id'')) (\<lambda>sid.
                        ([], Inr (note_speaker_id sid st))))
                   st))
            st)
       0 (object_values (js_or sessionsVal (JObj []))) ([], [])"

definition check_duplicate_speakers ::
  "json \<Rightarrow> ValidationError list \<times> (js_error + unit)" where
  "check_duplicate_speakers sessionsVal =
     and_then (collect_speaker_ids sessionsVal) (\<lambda>(speakerIds, duplicateSpeakers).
       (map duplicate_speaker_warning duplicateSpeakers, Inr ()))"

definition check_time_slots :: "json \<Rightarrow> ValidationError list \<times> (js_error + unit)" where
  "check_time_slots sessionsVal =
     for_each
       (\<lambda>sessions i st.
          js_forEach sessions
            (\<lambda>session index st.
               and_then (expr (get_prop session ''timeSlot'')) (\<lambda>timeSlot.
                 (if truthy timeSlot \<and> \<not> isValidTimeSlot timeSlot
                  then [time_slot_warning timeSlot index] else [], Inr st)))
            st)
       0 (object_values (js_or sessionsVal (JObj []))) ()"

definition check_speaker_images :: "json \<Rightarrow> ValidationError list \<times> (js_error + unit)" where
  "check_speaker_images sessionsVal =
     for_each
       (\<lambda>sessions i st.
          js_forEach sessions
            (\<lambda>session j st.
               and_then (expr (get_prop session ''speakers'')) (\<lambda>speakers.
                 js_forEach_opt speakers
                   (\<lambda>speaker speakerIndex st.
                      and_then (expr (get_prop speaker ''image'')) (\<lambda>image.
                      and_then (expr (get_prop speaker ''id'')) (\<lambda>sid.
                        (if \<not> truthy image \<or> image = JStr ''0-placeholder-person.png''
                         then [placeholder_image_warning sid speakerIndex] else [], Inr st))))
                   st))
            st)
       0 (object_values (js_or sessionsVal (JObj []))) ()"

text \<open>The body of the \<^verbatim>\<open>try\<close> block.\<close>

definition business_checks :: "json \<Rightarrow> ValidationError list \<times> (js_error + unit)" where
  "business_checks scheduleData =
     and_then (expr (try_bind (get_prop scheduleData ''categories'') category_id_set)) (\<lambda>categoryIds.
     and_then (expr (get_prop scheduleData ''sessions'')) (\<lambda>sessionsVal.
     and_then (check_orphans categoryIds sessionsVal) (\<lambda>_.
     and_then (check_empty_categories categoryIds sessionsVal) (\<lambda>_.
     and_then (check_duplicate_speakers sessionsVal) (\<lambda>_.
     and_then (check_time_slots sessionsVal) (\<lambda>_.
       check_speaker_images sessionsVal))))))"

definition error_str :: "js_error \<Rightarrow> string" where
  "error_str e = ''TypeError''"

definition validateBusinessRules :: "json \<Rightarrow> ValidationResult" where
  "validateBusinessRules scheduleData =
     (case business_checks scheduleData of (warns, outcome) \<Rightarrow>
        let errs =
              (case outcome of
                 Inr _ \<Rightarrow> []
               | Inl e \<Rightarrow>
                   [mk_error ''business_rules''
                      (''Business rules validation failed: '' @ error_str e) (Some ''business_rules'')])
        in \<lparr>isValid = (errs = []), errors = errs, warnings = warns\<rparr>)"

section \<open>Text extraction and sorting (bilingual.ts)\<close>

datatype lang = EN | ZH

definition getBilingualText :: "json \<Rightarrow> lang \<Rightarrow> string \<Rightarrow> json" where
  "getBilingualText textObj currentLang fallback =
     (if typeof textObj = TString then textObj
      else if \<not> truthy textObj then JStr fallback
      else if typeof textObj = TObject \<and> (has_key ''en'' textObj \<or> has_key ''zh'' textObj) then
        (let zhText = js_or (prop_of textObj ''zh'') (JStr []);
             enText = js_or (prop_of textObj ''en'') (JStr [])
         in if truthy zhText \<and> truthy enText then (if currentLang = ZH then zhText else enText)
            else if truthy zhText then zhText
            else if truthy enText then enText
            else JStr fallback)
      else JStr fallback)"

text \<open>
  \<open>sortSessionsByTime\<close> copies its argument and sorts the copy in place, so arrays live in
  a store here: an address is a position in the store, and \<^verbatim>\<open>[...xs]\<close> allocates.
\<close>

type_synonym store = "json list list"

definition array_spread :: "store \<Rightarrow> nat \<Rightarrow> store \<times> (js_error + nat)" where
  "array_spread h a =
     (if a < length h then (h @ [h ! a], Inr (length h)) else (h, Inl TypeError))"

text \<open>\<^verbatim>\<open>s.split(sep)[0]\<close>: the text before the first occurrence of the separator.\<close>

fun split_head :: "string \<Rightarrow> string \<Rightarrow> string" where
  "split_head sep [] = []"
| "split_head sep (c # s) = (if prefix sep (c # s) then [] else c # split_head sep s)"

text \<open>\<^verbatim>\<open>a.timeSlot.split(' - ')[0]\<close>: only a string has \<^verbatim>\<open>split\<close>.\<close>

definition time_key :: "json \<Rightarrow> js_error + string" where
  "time_key a =
     try_bind (get_prop a ''timeSlot'') (\<lambda>timeSlot.
       case timeSlot of JStr s \<Rightarrow> Inr (split_head '' - '' s) | _ \<Rightarrow> Inl TypeError)"

text \<open>The comparison function of the source; the collation of the host is a parameter.\<close>

definition compare_sessions ::
  "(string \<Rightarrow> string \<Rightarrow> int) \<Rightarrow> json \<Rightarrow> json \<Rightarrow> js_error + int" where
  "compare_sessions localeCompare a b =
     try_bind (time_key a) (\<lambda>timeA.
     try_bind (time_key b) (\<lambda>timeB.
       Inr (localeCompare timeA timeB)))"

text \<open>
  \<^verbatim>\<open>Array.prototype.sort\<close> is stable, never passes \<^verbatim>\<open>undefined\<close> to the comparison and
  puts it last; the engine's algorithm is an insertion sort here.
\<close>

fun insert_sorted :: "('a \<Rightarrow> 'a \<Rightarrow> js_error + int) \<Rightarrow> 'a \<Rightarrow> 'a list \<Rightarrow> js_error + 'a list" where
  "insert_sorted cmp x [] = Inr [x]"
| "insert_sorted cmp x (y # ys) =
     try_bind (cmp x y) (\<lambda>c.
       if c \<le> 0 then Inr (x # y # ys)
       else try_bind (insert_sorted cmp x ys) (\<lambda>zs. Inr (y # zs)))"

fun sort_with :: "('a \<Rightarrow> 'a \<Rightarrow> js_error + int) \<Rightarrow> 'a list \<Rightarrow> js_error + 'a list" where
  "sort_with cmp [] = Inr []"
| "sort_with cmp (x # xs) = try_bind (sort_with cmp xs) (insert_sorted cmp x)"

definition array_sort ::
  "(json \<Rightarrow> json \<Rightarrow> js_error + int) \<Rightarrow> store \<Rightarrow> nat \<Rightarrow> store \<times> (js_error + nat)" where
  "array_sort cmp h a =
     (case sort_with cmp (filter (\<lambda>x. x \<noteq> JUndefined) (h ! a)) of
        Inl e \<Rightarrow> (h, Inl e)
      | Inr ys \<Rightarrow> (h[a := ys @ filter (\<lambda>x. x = JUndefined) (h ! a)], Inr a))"

definition sortSessionsByTime ::
  "(string \<Rightarrow> string \<Rightarrow> int) \<Rightarrow> store \<Rightarrow> nat \<Rightarrow> store \<times> (js_error + nat)" where
  "sortSessionsByTime localeCompare h sessions =
     (case array_spread h sessions of
        (h1, Inl e) \<Rightarrow> (h1, Inl e)
      | (h1, Inr copy) \<Rightarrow> array_sort (compare_sessions localeCompare) h1 copy)"

section \<open>Safe processing (bilingual.ts)\<close>

text \<open>
  The error callback is a recorder: what the functions below return first is the list of
  its invocations, message and context, in order. A callback that is absent records
  nothing; one that raises is outside the model.
\<close>

type_synonym invocation = "string \<times> string option"

definition lang_str :: "lang \<Rightarrow> string" where
  "lang_str l = (case l of EN \<Rightarrow> ''en'' | ZH \<Rightarrow> ''zh'')"

text \<open>\<^verbatim>\<open>v?.trim()\<close>: nothing on \<^verbatim>\<open>null\<close> and \<^verbatim>\<open>undefined\<close>, and only a string has \<^verbatim>\<open>trim\<close>.\<close>

definition trim_opt :: "json \<Rightarrow> js_error + json" where
  "trim_opt v =
     (if nullish v then Inr JUndefined
      else case v of JStr s \<Rightarrow> Inr (JStr (trim s)) | _ \<Rightarrow> Inl TypeError)"

definition safeGetBilingualText :: "json \<Rightarrow> lang \<Rightarrow> string \<Rightarrow> invocation list \<times> string" where
  "safeGetBilingualText textObj currentLang fallback =
     (if \<not> truthy textObj then ([(''Text object is null or undefined'', None)], fallback)
      else if typeof textObj = TString then
        ([], if trim (to_str textObj) \<noteq> [] then trim (to_str textObj) else fallback)
      else if typeof textObj = TObject \<and> (has_key ''en'' textObj \<or> has_key ''zh'' textObj) then
        (case try_bind (trim_opt (prop_of textObj ''zh'')) (\<lambda>z.
              try_bind (trim_opt (prop_of textObj ''en'')) (\<lambda>e. Inr (z, e))) of
           Inl err \<Rightarrow> ([(''Error processing bilingual text: '' @ error_str err, None)], fallback)
         | Inr (z, e) \<Rightarrow>
             let zhText = to_str (js_or z (JStr []));
                 enText = to_str (js_or e (JStr []))
             in if currentLang = ZH \<and> zhText \<noteq> [] then ([], zhText)
                else if currentLang = EN \<and> enText \<noteq> [] then ([], enText)
                else if zhText \<noteq> [] then
                  ([(''Missing '' @ lang_str currentLang @ '' translation, using Chinese'',
                     Some ''language_fallback'')], zhText)
                else if enText \<noteq> [] then
                  ([(''Missing '' @ lang_str currentLang @ '' translation, using English'',
                     Some ''language_fallback'')], enText)
                else ([(''No valid text found in bilingual object'', None)], fallback))
      else ([(''Invalid bilingual text object structure'', None)], fallback))"

text \<open>\<^verbatim>\<open>{...v, k: x}\<close>: the own properties of \<open>v\<close>, with \<open>k\<close> set.\<close>

definition spread_with :: "json \<Rightarrow> (string \<times> json) list \<Rightarrow> json" where
  "spread_with v kxs = JObj (foldl (\<lambda>ps (k, x). AList.update k x ps) (own_props v) kxs)"

text \<open>The callback of \<^verbatim>\<open>days.map\<close>, with its own \<^verbatim>\<open>try\<close>.\<close>

definition process_day :: "json \<Rightarrow> nat \<Rightarrow> invocation list \<times> json" where
  "process_day day index =
     (case get_prop day ''url'' of
        Inl err \<Rightarrow>
          ([(''Error processing day '' @ str_of_nat index @ '': '' @ error_str err, None)], day)
      | Inr url \<Rightarrow>
          (case safeGetBilingualText url EN [] of (log1, en) \<Rightarrow>
           case safeGetBilingualText url ZH [] of (log2, zh) \<Rightarrow>
             (log1 @ log2,
              spread_with day [(''url'', JObj [(''en'', JStr en), (''zh'', JStr zh)])])))"

text \<open>\<^verbatim>\<open>typeof v === 'object' ? v : {en: String(v || ''), zh: String(v || '')}\<close>\<close>

definition as_pair :: "json \<Rightarrow> json" where
  "as_pair v =
     (if typeof v = TObject then v
      else JObj [(''en'', JStr (to_str (js_or v (JStr [])))),
                 (''zh'', JStr (to_str (js_or v (JStr []))))])"

definition process_speaker :: "string \<Rightarrow> nat \<Rightarrow> json \<Rightarrow> nat \<Rightarrow> invocation list \<times> json" where
  "process_speaker categoryId index speaker speakerIndex =
     (case try_bind (get_prop speaker ''name'') (\<lambda>name.
           try_bind (get_prop speaker ''roleOrg'') (\<lambda>roleOrg. Inr (name, roleOrg))) of
        Inl err \<Rightarrow>
          ([(''Error processing speaker '' @ str_of_nat speakerIndex @ '' in session '' @
             str_of_nat index @ '' of category '' @ categoryId @ '': '' @ error_str err, None)],
           speaker)
      | Inr (name, roleOrg) \<Rightarrow>
          ([], spread_with speaker [(''name'', as_pair name), (''roleOrg'', as_pair roleOrg)]))"

text \<open>\<^verbatim>\<open>xs.map((x, i) => ...)\<close> with a callback that records and never raises.\<close>

definition map_recording ::
  "('a \<Rightarrow> nat \<Rightarrow> invocation list \<times> 'b) \<Rightarrow> 'a list \<Rightarrow> invocation list \<times> 'b list" where
  "map_recording f xs =
     (concat (map (\<lambda>(i, x). fst (f x i)) (enumerate 0 xs)),
      map (\<lambda>(i, x). snd (f x i)) (enumerate 0 xs))"

text \<open>\<^verbatim>\<open>(v || []).map(...)\<close>: an exception unless the value is an array, or falsy.\<close>

definition array_or_empty :: "json \<Rightarrow> js_error + json list" where
  "array_or_empty v = (case js_or v (JArr []) of JArr xs \<Rightarrow> Inr xs | _ \<Rightarrow> Inl TypeError)"

definition process_session :: "string \<Rightarrow> json \<Rightarrow> nat \<Rightarrow> invocation list \<times> json" where
  "process_session categoryId session index =
     (case try_bind (get_prop session ''speakers'') array_or_empty of
        Inl err \<Rightarrow>
          ([(''Error processing session '' @ str_of_nat index @ '' in category '' @ categoryId @
             '': '' @ error_str err, None)],
           session)
      | Inr speakers \<Rightarrow>
          (case map_recording (process_speaker categoryId index) speakers of (log, processed) \<Rightarrow>
             (log, spread_with session [(''speakers'', JArr processed)])))"

text \<open>One key of \<^verbatim>\<open>sessions\<close>: the value stored under it in \<^verbatim>\<open>processedSessions\<close>.\<close>

definition process_bucket :: "json \<Rightarrow> string \<Rightarrow> invocation list \<times> json" where
  "process_bucket sessionsVal categoryId =
     (case array_or_empty (prop_of sessionsVal categoryId) of
        Inl err \<Rightarrow>
          ([(''Error processing sessions for category '' @ categoryId @ '': '' @ error_str err, None)],
           js_or (prop_of sessionsVal categoryId) (JArr []))
      | Inr sessions \<Rightarrow>
          (case map_recording (process_session categoryId) sessions of (log, processed) \<Rightarrow>
             (log, JArr processed)))"

fun process_buckets ::
  "json \<Rightarrow> string list \<Rightarrow> (string \<times> json) list \<Rightarrow> invocation list \<times> (string \<times> json) list" where
  "process_buckets sessionsVal [] processedSessions = ([], processedSessions)"
| "process_buckets sessionsVal (categoryId # rest) processedSessions =
     (case process_bucket sessionsVal categoryId of (log, v) \<Rightarrow>
      case process_buckets sessionsVal rest (AList.update categoryId v processedSessions) of
        (log', result) \<Rightarrow> (log @ log', result))"

definition forward :: "ValidationError \<Rightarrow> invocation" where
  "forward e = (message e, ctx e)"

text \<open>The body of the outer \<^verbatim>\<open>try\<close>.\<close>

definition safe_process_body :: "json \<Rightarrow> invocation list \<times> (js_error + json)" where
  "safe_process_body scheduleData =
     and_then (expr (validateBilingualScheduleData scheduleData)) (\<lambda>validation.
     and_then ((if \<not> isValid validation then map forward (errors validation) else []) @
               map forward (warnings validation), Inr ()) (\<lambda>_.
     and_then (expr (try_bind (get_prop scheduleData ''days'') array_or_empty)) (\<lambda>days.
     and_then (case map_recording process_day days of (log, processedDays) \<Rightarrow>
                 (log, Inr processedDays)) (\<lambda>processedDays.
     and_then (expr (try_bind (get_prop scheduleData ''categories'') array_or_empty)) (\<lambda>categories.
     and_then (expr (get_prop scheduleData ''sessions'')) (\<lambda>sessionsVal.
       case process_buckets sessionsVal (object_keys (js_or sessionsVal (JObj []))) [] of
         (log, processedSessions) \<Rightarrow>
           (log, Inr (JObj [(''days'', JArr processedDays),
                            (''categories'', JArr (map (\<lambda>category. spread_with category []) categories)),
                            (''sessions'', JObj processedSessions)]))))))))"

definition safeProcessBilingualSchedule :: "json \<Rightarrow> lang \<Rightarrow> invocation list \<times> (js_error + json)" where
  "safeProcessBilingualSchedule scheduleData currentLang =
     (case safe_process_body scheduleData of
        (log, Inr result) \<Rightarrow> (log, Inr result)
      | (log, Inl err) \<Rightarrow>
          (log @ [(''Critical error processing schedule data: '' @ error_str err, None)],
           Inr scheduleData))"

section \<open>The command-line check (scripts/validate-schedule.js)\<close>

text \<open>
  What \<open>validateSchedule\<close> does with the parsed file; every failure prints a line and leaves
  with status 1.
\<close>

datatype cli_failure =
    MissingFields "string list"
  | InvalidOrEmptyDays
  | InvalidOrEmptyCategories
  | InvalidSessions
  | ValidationFailure js_error

record cli_summary =
  days_count :: nat
  categories_count :: nat
  session_categories :: nat
  total_sessions :: nat

definition array_length :: "json \<Rightarrow> nat" where
  "array_length v = (case v of JArr xs \<Rightarrow> length xs | _ \<Rightarrow> 0)"

definition validateSchedule :: "json \<Rightarrow> cli_failure + cli_summary" where
  "validateSchedule scheduleData =
     (case try_map (\<lambda>field. get_prop scheduleData field) [''days'', ''categories'', ''sessions''] of
        Inl e \<Rightarrow> Inl (ValidationFailure e)
      | Inr vals \<Rightarrow>
          let missingFields =
                map fst (filter (\<lambda>(field, v). \<not> truthy v)
                           (zip [''days'', ''categories'', ''sessions''] vals));
              days = prop_of scheduleData ''days'';
              categories = prop_of scheduleData ''categories'';
              sessionsVal = prop_of scheduleData ''sessions''
          in if missingFields \<noteq> [] then Inl (MissingFields missingFields)
             else if \<not> isArray days \<or> array_length days = 0 then Inl InvalidOrEmptyDays
             else if \<not> isArray categories \<or> array_length categories = 0
               then Inl InvalidOrEmptyCategories
             else if \<not> truthy sessionsVal \<or> typeof sessionsVal \<noteq> TObject then Inl InvalidSessions
             else Inr \<lparr>days_count = array_length days,
                       categories_count = array_length categories,
                       session_categories = length (object_keys sessionsVal),
                       total_sessions =
                         sum_list (map (\<lambda>categoryEvents.
                                          if isArray categoryEvents then array_length categoryEvents else 0)
                                     (object_values sessionsVal))\<rparr>)"

section \<open>Notions the properties are stated with\<close>

text \<open>Every entry of a list carries the severity of the list it stands in.\<close>

definition all_errors :: "ValidationError list \<Rightarrow> bool" where
  "all_errors es = list_all (\<lambda>e. severity e = Error) es"

definition all_warnings :: "ValidationError list \<Rightarrow> bool" where
  "all_warnings ws = list_all (\<lambda>w. severity w = Warning) ws"

definition severity_segregated :: "ValidationResult \<Rightarrow> bool" where
  "severity_segregated r = (all_errors (errors r) \<and> all_warnings (warnings r))"

text \<open>
  The accessor as the specification words it, on the two texts of a pair (an absent or
  \<^verbatim>\<open>null\<close> side counts as empty).
\<close>

definition is_text_field :: "json \<Rightarrow> bool" where
  "is_text_field v = (v = JUndefined \<or> v = JNull \<or> typeof v = TString)"

definition field_text :: "json \<Rightarrow> string" where
  "field_text v = (case v of JStr s \<Rightarrow> s | _ \<Rightarrow> [])"

definition bilingual_choice :: "string \<Rightarrow> string \<Rightarrow> lang \<Rightarrow> string \<Rightarrow> string" where
  "bilingual_choice en zh requested fallback =
     (if en \<noteq> [] \<and> zh \<noteq> [] then (if requested = ZH then zh else en)
      else if en \<noteq> [] then en
      else if zh \<noteq> [] then zh
      else fallback)"

text \<open>
  The order the comparison function of \<open>sortSessionsByTime\<close> decides, and what is asked of
  the host's collation for a sort to have a determined result.
\<close>

definition in_time_order :: "(string \<Rightarrow> string \<Rightarrow> int) \<Rightarrow> json \<Rightarrow> json \<Rightarrow> bool" where
  "in_time_order localeCompare a b =
     (case compare_sessions localeCompare a b of Inr c \<Rightarrow> c \<le> 0 | Inl _ \<Rightarrow> False)"

definition consistent_collation :: "(string \<Rightarrow> string \<Rightarrow> int) \<Rightarrow> bool" where
  "consistent_collation localeCompare =
     ((\<forall>a b. 0 < localeCompare a b \<longrightarrow> localeCompare b a \<le> 0) \<and>
      (\<forall>a b c. localeCompare a b \<le> 0 \<and> localeCompare b c \<le> 0 \<longrightarrow> localeCompare a c \<le> 0))"

text \<open>The error the document validator pushes for a category identifier it has seen before.\<close>

definition is_duplicate_category_error :: "ValidationError \<Rightarrow> bool" where
  "is_duplicate_category_error e = prefix ''Duplicate category ID '' (message e)"

text \<open>The identifiers found a second time by a pass that has seen the identifiers \<open>seen\<close>.\<close>

fun repeated_ids :: "json list \<Rightarrow> json list \<Rightarrow> json list" where
  "repeated_ids seen [] = []"
| "repeated_ids seen (x # xs) =
     (if truthy x \<and> set_has seen x then x # repeated_ids seen xs
      else repeated_ids (if truthy x then seen @ [x] else seen) xs)"

definition no_dup_errors :: "ValidationError list \<Rightarrow> bool" where
  "no_dup_errors es = (filter is_duplicate_category_error es = [])"

text \<open>
  What the business rules walk through: the values under the keys of \<^verbatim>\<open>sessions\<close>, the
  sessions of each, the speakers of each session, and the identifiers these carry.
\<close>

definition elements :: "json \<Rightarrow> json list" where
  "elements v = (case v of JArr xs \<Rightarrow> xs | _ \<Rightarrow> [])"

definition session_buckets :: "json \<Rightarrow> json list" where
  "session_buckets scheduleData = object_values (js_or (prop_of scheduleData ''sessions'') (JObj []))"

text \<open>A value a \<^verbatim>\<open>Set\<close> compares by content: anything but an array or an object.\<close>

definition primitive :: "json \<Rightarrow> bool" where
  "primitive v = (\<not> isArray v \<and> (case v of JObj _ \<Rightarrow> False | _ \<Rightarrow> True))"

definition session_speakers :: "json \<Rightarrow> json list" where
  "session_speakers session = elements (prop_of session ''speakers'')"

definition bucket_speakers :: "json \<Rightarrow> json list" where
  "bucket_speakers sessions = concat (map session_speakers (elements sessions))"

definition all_speakers :: "json \<Rightarrow> json list" where
  "all_speakers scheduleData = concat (map bucket_speakers (session_buckets scheduleData))"

definition speaker_ids :: "json \<Rightarrow> json list" where
  "speaker_ids scheduleData = map (\<lambda>speaker. prop_of speaker ''id'') (all_speakers scheduleData)"

definition note_speaker :: "json list \<times> json list \<Rightarrow> json \<Rightarrow> json list \<times> json list" where
  "note_speaker st speaker = note_speaker_id (prop_of speaker ''id'') st"

definition ids_invariant :: "json list \<Rightarrow> json list \<times> json list \<Rightarrow> bool" where
  "ids_invariant seen st =
     (set (fst st) = {x \<in> set seen. truthy x} \<and> distinct (snd st) \<and>
      set (snd st) = {x. truthy x \<and> primitive x \<and> 2 \<le> count_list seen x})"

definition is_duplicate_speaker_warning :: "ValidationError \<Rightarrow> bool" where
  "is_duplicate_speaker_warning w = (field w = ''speakers'')"

definition is_time_slot_warning :: "ValidationError \<Rightarrow> bool" where
  "is_time_slot_warning w = (field w = ''session.timeSlot'')"

text \<open>The strings a pattern matches in full.\<close>

fun rx_lang :: "rx \<Rightarrow> string set" where
  "rx_lang (Cls p) = {[c] | c. p c}"
| "rx_lang (Lit a) = {[a]}"
| "rx_lang (Seq a b) = {u @ v | u v. u \<in> rx_lang a \<and> v \<in> rx_lang b}"
| "rx_lang (Opt a) = insert [] (rx_lang a)"
| "rx_lang (StarCls p) = {u. list_all p u}"

text \<open>
  The documented time range: one or two digits, a colon, two digits, a hyphen with any
  white space around it, one or two digits, a colon, two digits.
\<close>

definition hour_digits :: "string \<Rightarrow> bool" where
  "hour_digits h = (list_all is_digit h \<and> (length h = 1 \<or> length h = 2))"

definition minute_digits :: "string \<Rightarrow> bool" where
  "minute_digits m = (list_all is_digit m \<and> length m = 2)"

definition time_range_shape :: "string \<Rightarrow> bool" where
  "time_range_shape s =
     (\<exists>h1 m1 w1 w2 h2 m2.
        s = h1 @ '':'' @ m1 @ w1 @ ''-'' @ w2 @ h2 @ '':'' @ m2 \<and>
        hour_digits h1 \<and> minute_digits m1 \<and> list_all is_space w1 \<and> list_all is_space w2 \<and>
        hour_digits h2 \<and> minute_digits m2)"

text \<open>A string contains a placeholder when some part of it is, without regard to case, it.\<close>

definition contains_ignoring_case :: "string \<Rightarrow> string \<Rightarrow> bool" where
  "contains_ignoring_case s sub = (\<exists>pre mid post. s = pre @ mid @ post \<and> toLowerCase mid = sub)"

definition is_placeholder :: "string \<Rightarrow> bool" where
  "is_placeholder s =
     (contains_ignoring_case s ''tbd'' \<or> contains_ignoring_case s ''all day'' \<or>
      contains_ignoring_case s all_day_zh)"

text \<open>
  The time slots the business rules warn about: a present value that is not a string, or
  a non-empty string that is neither a time range (once trimmed) nor holds a placeholder.
\<close>

definition unusual_time_slot :: "json \<Rightarrow> bool" where
  "unusual_time_slot v =
     (truthy v \<and>
      (typeof v \<noteq> TString \<or>
       (\<not> time_range_shape (trim (to_str v)) \<and> \<not> is_placeholder (to_str v))))"

definition bucket_time_slot_warnings :: "json \<Rightarrow> ValidationError list" where
  "bucket_time_slot_warnings sessions =
     concat (map (\<lambda>(index, session).
                    if unusual_time_slot (prop_of session ''timeSlot'')
                    then [time_slot_warning (prop_of session ''timeSlot'') index] else [])
               (enumerate 0 (elements sessions)))"

text \<open>
  A result without errors and without warnings; a text with both its languages; and a value
  the validation of a required text passes without a remark (a number or \<^verbatim>\<open>true\<close> is one).
\<close>

definition clean :: "ValidationResult \<Rightarrow> bool" where
  "clean r = (errors r = [] \<and> warnings r = [])"

definition both_languages :: "json \<Rightarrow> bool" where
  "both_languages t =
     (truthy t \<and> typeof t = TObject \<and>
      has_language (prop_of t ''en'') \<and> has_language (prop_of t ''zh''))"

definition acceptable_text :: "json \<Rightarrow> bool" where
  "acceptable_text t =
     (truthy t \<and> typeof t \<noteq> TString \<and> (typeof t = TObject \<longrightarrow> both_languages t))"

text \<open>
  The canonical shape: what the structural validation passes without a remark and the
  safe processor walks through without an invocation of the callback.
\<close>

definition speaker_ok :: "json \<Rightarrow> bool" where
  "speaker_ok speaker =
     (\<not> nullish speaker \<and> \<not> not_nonempty_string (prop_of speaker ''id'') \<and>
      \<not> not_nonempty_string (prop_of speaker ''image'') \<and> isArray (prop_of speaker ''tags'') \<and>
      acceptable_text (prop_of speaker ''name'') \<and> acceptable_text (prop_of speaker ''roleOrg''))"

definition session_ok :: "json \<Rightarrow> bool" where
  "session_ok session =
     (\<not> nullish session \<and> \<not> not_nonempty_string (prop_of session ''timeSlot'') \<and>
      acceptable_text (prop_of session ''date'') \<and> acceptable_text (prop_of session ''title'') \<and>
      acceptable_text (prop_of session ''content'') \<and>
      (truthy (prop_of session ''room'') \<longrightarrow>
         clean (validateBilingualText (prop_of session ''room'') ''session.room'' False)) \<and>
      isArray (prop_of session ''speakers'') \<and>
      list_all speaker_ok (elements (prop_of session ''speakers'')))"

definition bucket_ok :: "json \<Rightarrow> bool" where
  "bucket_ok v = (isArray v \<and> list_all session_ok (elements v))"

definition day_ok :: "json \<Rightarrow> bool" where
  "day_ok day =
     (\<not> nullish day \<and> acceptable_text (prop_of day ''date'') \<and>
      acceptable_text (prop_of day ''title'') \<and> both_languages (prop_of day ''url''))"

definition category_ok :: "json \<Rightarrow> bool" where
  "category_ok category =
     (\<not> nullish category \<and> \<not> not_nonempty_string (prop_of category ''id'') \<and>
      acceptable_text (prop_of category ''name'') \<and> acceptable_text (prop_of category ''room''))"

definition canonical :: "json \<Rightarrow> bool" where
  "canonical d =
     (truthy d \<and> typeof d = TObject \<and>
      isArray (prop_of d ''days'') \<and> list_all day_ok (elements (prop_of d ''days'')) \<and>
      isArray (prop_of d ''categories'') \<and>
      validate_categories 0 [] (elements (prop_of d ''categories'')) = Inr ([], []) \<and>
      truthy (prop_of d ''sessions'') \<and> typeof (prop_of d ''sessions'') = TObject \<and>
      (\<exists>categoryIds. category_id_set (prop_of d ''categories'') = Inr categoryIds \<and>
         list_all (\<lambda>k. set_has categoryIds (JStr k) \<and> bucket_ok (prop_of (prop_of d ''sessions'') k))
           (object_keys (prop_of d ''sessions''))))"

section \<open>Example documents\<close>

text \<open>Three sessions' worth of speakers: \<open>x\<close> speaks three times, \<open>y\<close> once.\<close>

definition speaker_with_id :: "string \<Rightarrow> json" where
  "speaker_with_id i = JObj [(''id'', JStr i)]"

definition recurring_speakers_sessions :: json where
  "recurring_speakers_sessions =
     JObj [(''talks'',
            JArr [JObj [(''speakers'', JArr [speaker_with_id ''x'', speaker_with_id ''y'',
                                            speaker_with_id ''x''])],
                  JObj [(''speakers'', JArr [speaker_with_id ''x''])]])]"

definition recurring_speakers_document :: json where
  "recurring_speakers_document =
     JObj [(''categories'', JArr []), (''sessions'', recurring_speakers_sessions)]"

text \<open>A session whose time slot is the number 42.\<close>

definition numeric_time_slot_document :: json where
  "numeric_time_slot_document =
     JObj [(''categories'', JArr []),
           (''sessions'', JObj [(''talks'', JArr [JObj [(''timeSlot'', JNum 42)]])])]"

text \<open>Three sessions: a time range, the word noon, a placeholder.\<close>

definition mixed_time_slots_document :: json where
  "mixed_time_slots_document =
     JObj [(''categories'', JArr []),
           (''sessions'',
            JObj [(''talks'', JArr [JObj [(''timeSlot'', JStr ''10:15 - 10:50'')],
                                    JObj [(''timeSlot'', JStr ''noon'')],
                                    JObj [(''timeSlot'', JStr ''TBD'')]])])]"

text \<open>A session key without a category: the validation warns about it at every run.\<close>

definition orphan_key_document :: json where
  "orphan_key_document =
     JObj [(''days'', JArr []), (''categories'', JArr []), (''sessions'', JObj [(''b'', JArr [])])]"

text \<open>
  The two documents of the repository's own tests (test-error-handling.ts): the valid one,
  with its Chinese texts transliterated, and the malformed one.
\<close>

definition text_pair :: "string \<Rightarrow> string \<Rightarrow> json" where
  "text_pair e z = JObj [(''en'', JStr e), (''zh'', JStr z)]"

definition testValidScheduleData :: json where
  "testValidScheduleData =
     JObj [(''days'',
            JArr [JObj [(''date'', text_pair ''September 13'' ''9 yue 13 ri''),
                        (''title'', text_pair ''Day 1'' ''di yi tian''),
                        (''url'', text_pair ''/schedule/'' ''/zh/schedule/'')]]),
           (''categories'',
            JArr [JObj [(''id'', JStr ''test-category''),
                        (''name'', text_pair ''Test Category'' ''ceshi leibie''),
                        (''room'', text_pair ''Room 1'' ''fangjian 1'')]]),
           (''sessions'',
            JObj [(''test-category'',
                   JArr [JObj [(''date'', text_pair ''September 13'' ''9 yue 13 ri''),
                               (''timeSlot'', JStr ''10:00 - 11:00''),
                               (''title'', text_pair ''Test Session'' ''ceshi huihua''),
                               (''content'', text_pair ''Test content'' ''ceshi neirong''),
                               (''speakers'',
                                JArr [JObj [(''id'', JStr ''test-speaker''),
                                            (''name'', text_pair ''Test Speaker'' ''ceshi yanjiangzhe''),
                                            (''roleOrg'', text_pair ''Test Organization'' ''ceshi zuzhi''),
                                            (''tags'', JArr [JStr ''test-category'']),
                                            (''image'', JStr ''test-speaker.jpg'')]])]])])]"

definition testMalformedScheduleData :: json where
  "testMalformedScheduleData =
     JObj [(''days'', JStr ''not an array''), (''categories'', JArr []), (''sessions'', JNull)]"

section \<open>Properties\<close>

subsection \<open>The validity flag\<close>

lemma try_bind_Inr: "try_bind m f = Inr y \<longleftrightarrow> (\<exists>v. m = Inr v \<and> f v = Inr y)"
  by (cases m) (simp_all add: try_bind_def)

lemma validateBilingualText_isValid:
  "isValid (validateBilingualText t f req) = (errors (validateBilingualText t f req) = [])"
  by (simp add: validateBilingualText_def Let_def)

lemma validateBilingualSpeaker_isValid:
  "validateBilingualSpeaker s c = Inr r \<Longrightarrow> isValid r = (errors r = [])"
  by (auto simp: validateBilingualSpeaker_def try_bind_def Let_def split: sum.splits)

lemma validateBilingualCategory_isValid:
  "validateBilingualCategory s c = Inr r \<Longrightarrow> isValid r = (errors r = [])"
  by (auto simp: validateBilingualCategory_def try_bind_def Let_def split: sum.splits)

lemma validateBilingualDay_isValid:
  "validateBilingualDay s c = Inr r \<Longrightarrow> isValid r = (errors r = [])"
  by (auto simp: validateBilingualDay_def try_bind_def Let_def split: sum.splits)

lemma validateBilingualSession_isValid:
  "validateBilingualSession s c = Inr r \<Longrightarrow> isValid r = (errors r = [])"
  unfolding validateBilingualSession_def try_bind_def Let_def
  by (auto split: sum.splits json.splits prod.splits)

lemma validateBilingualScheduleData_isValid:
  "validateBilingualScheduleData d = Inr r \<Longrightarrow> isValid r = (errors r = [])"
  unfolding validateBilingualScheduleData_def Let_def
  by (auto simp: try_bind_Inr split: if_splits)

subsection \<open>Severities\<close>

lemma all_errors_simps [simp]:
  "all_errors []" "all_errors (e # es) = (severity e = Error \<and> all_errors es)"
  "all_errors (es @ es') = (all_errors es \<and> all_errors es')"
  by (auto simp: all_errors_def)

lemma all_warnings_simps [simp]:
  "all_warnings []" "all_warnings (e # es) = (severity e = Warning \<and> all_warnings es)"
  "all_warnings (es @ es') = (all_warnings es \<and> all_warnings es')"
  by (auto simp: all_warnings_def)

lemma severity_mk [simp]:
  "severity (mk_error f m c) = Error" "severity (mk_warning f m c) = Warning"
  by (simp_all add: mk_error_def mk_warning_def)

lemma text_segregated: "severity_segregated (validateBilingualText t f req)"
  by (simp add: validateBilingualText_def severity_segregated_def Let_def)

lemma text_segregated' [simp]:
  "all_errors (errors (validateBilingualText t f req))"
  "all_warnings (warnings (validateBilingualText t f req))"
  using text_segregated[of t f req] by (simp_all add: severity_segregated_def)

lemma speaker_segregated:
  "validateBilingualSpeaker s c = Inr r \<Longrightarrow> severity_segregated r"
  by (auto simp: validateBilingualSpeaker_def try_bind_def Let_def severity_segregated_def
      split: sum.splits)

lemma category_segregated:
  "validateBilingualCategory s c = Inr r \<Longrightarrow> severity_segregated r"
  by (auto simp: validateBilingualCategory_def try_bind_def Let_def severity_segregated_def
      split: sum.splits)

lemma day_segregated:
  "validateBilingualDay s c = Inr r \<Longrightarrow> severity_segregated r"
  by (auto simp: validateBilingualDay_def try_bind_def Let_def severity_segregated_def
      split: sum.splits)

lemma validate_each_segregated:
  assumes "\<And>x i r. f x i = Inr r \<Longrightarrow> severity_segregated r"
  shows "validate_each f i xs = Inr (es, ws) \<Longrightarrow> all_errors es \<and> all_warnings ws"
proof (induction xs arbitrary: i es ws)
  case Nil
  then show ?case by simp
next
  case (Cons x xs)
  from Cons.prems obtain r es' ws' where
    r: "f x i = Inr r" and rest: "validate_each f (Suc i) xs = Inr (es', ws')"
    and eq: "es = errors r @ es'" "ws = warnings r @ ws'"
    by (auto simp: try_bind_def split: sum.splits)
  from assms[OF r] Cons.IH[OF rest] eq show ?case
    by (simp add: severity_segregated_def)
qed

lemma session_segregated:
  assumes "validateBilingualSession s c = Inr r"
  shows "severity_segregated r"
  using assms unfolding validateBilingualSession_def try_bind_def Let_def
  by (auto simp: severity_segregated_def split: sum.splits json.splits prod.splits
      dest!: validate_each_segregated[OF speaker_segregated, rotated])

lemma categories_segregated:
  "validate_categories i S cs = Inr (es, ws) \<Longrightarrow> all_errors es \<and> all_warnings ws"
proof (induction cs arbitrary: i S es ws)
  case Nil
  then show ?case by simp
next
  case (Cons c cs)
  from Cons.prems obtain r cid S' es' ws' where
    r: "validateBilingualCategory c (''categories['' @ str_of_nat i @ '']'') = Inr r"
    and rest: "validate_categories (Suc i) S' cs = Inr (es', ws')"
    and eq: "es = errors r @ (if truthy cid \<and> set_has S cid then [duplicate_category_error cid i] else []) @ es'"
       "ws = warnings r @ ws'"
    by (auto simp: try_bind_Inr Let_def)
  from category_segregated[OF r] Cons.IH[OF rest] eq show ?case
    by (simp add: severity_segregated_def duplicate_category_error_def)
qed

lemma session_bucket_segregated:
  assumes "validate_session_bucket so k = Inr (es, ws)"
  shows "all_errors es \<and> all_warnings ws"
proof (cases "prop_of so k")
  case (JArr sessions)
  with assms have "validate_each (\<lambda>session index. validateBilingualSession session
      (''sessions.'' @ k @ ''['' @ str_of_nat index @ '']'')) 0 sessions = Inr (es, ws)"
    by (simp add: validate_session_bucket_def)
  then show ?thesis
    by (rule validate_each_segregated[rotated]) (rule session_segregated)
qed (use assms in \<open>auto simp: validate_session_bucket_def\<close>)

lemma session_keys_segregated:
  "validate_session_keys so S ks = Inr (es, ws) \<Longrightarrow> all_errors es \<and> all_warnings ws"
proof (induction ks arbitrary: es ws)
  case Nil
  then show ?case by simp
next
  case (Cons k ks)
  from Cons.prems obtain es1 ws1 es' ws' where
    one: "validate_session_bucket so k = Inr (es1, ws1)"
    and rest: "validate_session_keys so S ks = Inr (es', ws')"
    and eq: "es = es1 @ es'"
      "ws = (if \<not> set_has S (JStr k) then [orphan_session_warning k] else []) @ ws1 @ ws'"
    by (auto simp: try_bind_Inr Let_def)
  from session_bucket_segregated[OF one] Cons.IH[OF rest] eq show ?case
    by (simp add: orphan_session_warning_def)
qed

lemma days_block_segregated:
  assumes "validate_days_block d = Inr (es, ws)"
  shows "all_errors es \<and> all_warnings ws"
proof (cases "prop_of d ''days''")
  case (JArr days)
  with assms have "validate_each
      (\<lambda>day index. validateBilingualDay day (''days['' @ str_of_nat index @ '']'')) 0 days = Inr (es, ws)"
    by (simp add: validate_days_block_def)
  then show ?thesis
    by (rule validate_each_segregated[rotated]) (rule day_segregated)
qed (use assms in \<open>auto simp: validate_days_block_def\<close>)

lemma categories_block_segregated:
  assumes "validate_categories_block d = Inr (es, ws)"
  shows "all_errors es \<and> all_warnings ws"
  using assms
  by (cases "prop_of d ''categories''")
     (auto simp: validate_categories_block_def dest: categories_segregated)

lemma sessions_block_segregated:
  assumes "validate_sessions_block d = Inr (es, ws)"
  shows "all_errors es \<and> all_warnings ws"
  using assms
  by (auto simp: validate_sessions_block_def Let_def try_bind_Inr split: if_splits
      dest: session_keys_segregated)

lemma document_segregated:
  assumes "validateBilingualScheduleData d = Inr r"
  shows "severity_segregated r"
proof (cases "\<not> truthy d \<or> typeof d \<noteq> TObject")
  case True
  with assms show ?thesis
    by (auto simp: validateBilingualScheduleData_def severity_segregated_def)
next
  case False
  with assms obtain de dw ce cw se sw where
    parts: "validate_days_block d = Inr (de, dw)" "validate_categories_block d = Inr (ce, cw)"
      "validate_sessions_block d = Inr (se, sw)"
    and r: "errors r = de @ ce @ se" "warnings r = dw @ cw @ sw"
    by (auto simp: validateBilingualScheduleData_def try_bind_Inr Let_def)
  from days_block_segregated[OF parts(1)] categories_block_segregated[OF parts(2)]
    sessions_block_segregated[OF parts(3)] r
  show ?thesis by (simp add: severity_segregated_def)
qed

lemma for_each_warnings:
  assumes "\<And>x i st. all_warnings (fst (body x i st))"
  shows "all_warnings (fst (for_each body i xs st))"
proof (induction xs arbitrary: i st)
  case Nil
  then show ?case by simp
next
  case (Cons x xs)
  show ?case
    using assms[of x i st] Cons.IH
    by (auto split: prod.splits sum.splits) (metis fst_conv)
qed

lemma js_forEach_warnings:
  assumes "\<And>x i st. all_warnings (fst (body x i st))"
  shows "all_warnings (fst (js_forEach v body st))"
  by (cases v) (simp_all add: js_forEach_def for_each_warnings[OF assms])

lemma js_forEach_opt_warnings:
  assumes "\<And>x i st. all_warnings (fst (body x i st))"
  shows "all_warnings (fst (js_forEach_opt v body st))"
  by (simp add: js_forEach_opt_def js_forEach_warnings[OF assms])

lemma and_then_warnings:
  assumes "all_warnings (fst m)" and "\<And>st. all_warnings (fst (k st))"
  shows "all_warnings (fst (and_then m k))"
  using assms(1) assms(2)
  by (auto simp: and_then_def split: prod.splits sum.splits) (metis fst_conv)

lemma expr_warnings: "all_warnings (fst (expr m))"
  by (simp add: expr_def)

lemmas warnings_intros =
  for_each_warnings js_forEach_warnings js_forEach_opt_warnings and_then_warnings expr_warnings

lemma check_orphans_warnings: "all_warnings (fst (check_orphans S v))"
  unfolding check_orphans_def
  by (intro warnings_intros) (simp add: orphan_warning_def)

lemma check_empty_categories_warnings: "all_warnings (fst (check_empty_categories S v))"
  unfolding check_empty_categories_def
  by (intro warnings_intros) (simp add: no_sessions_warning_def split: sum.splits)

lemma collect_speaker_ids_warnings: "all_warnings (fst (collect_speaker_ids v))"
  unfolding collect_speaker_ids_def
  by (intro warnings_intros) simp

lemma check_duplicate_speakers_warnings: "all_warnings (fst (check_duplicate_speakers v))"
  unfolding check_duplicate_speakers_def
  by (intro warnings_intros collect_speaker_ids_warnings)
     (simp add: split_def all_warnings_def list_all_iff duplicate_speaker_warning_def mk_warning_def)

lemma check_time_slots_warnings: "all_warnings (fst (check_time_slots v))"
  unfolding check_time_slots_def
  by (intro warnings_intros) (simp add: time_slot_warning_def)

lemma check_speaker_images_warnings: "all_warnings (fst (check_speaker_images v))"
  unfolding check_speaker_images_def
  by (intro warnings_intros) (simp add: placeholder_image_warning_def)

lemma business_checks_warnings: "all_warnings (fst (business_checks d))"
  unfolding business_checks_def
  by (intro warnings_intros check_orphans_warnings check_empty_categories_warnings
      check_duplicate_speakers_warnings check_time_slots_warnings check_speaker_images_warnings)

lemma business_segregated: "severity_segregated (validateBusinessRules d)"
  using business_checks_warnings[of d]
  by (cases "business_checks d")
     (auto simp: validateBusinessRules_def severity_segregated_def Let_def split: sum.splits)


subsection \<open>Claims about every validation result\<close>

text \<open>
  C1. In every result a validation function returns, \<open>isValid\<close> holds exactly when the list
  of errors is empty; the warnings play no part. \<open>validateBilingualText\<close> always returns;
  the other five return unless a property read raises (a \<^verbatim>\<open>null\<close> entity), and then there
  is no result.
\<close>

theorem isValid_iff_no_errors:
  "isValid (validateBilingualText t f req) = (errors (validateBilingualText t f req) = []) \<and>
   (\<forall>r. validateBilingualSpeaker speaker c1 = Inr r \<longrightarrow> isValid r = (errors r = [])) \<and>
   (\<forall>r. validateBilingualSession session c2 = Inr r \<longrightarrow> isValid r = (errors r = [])) \<and>
   (\<forall>r. validateBilingualCategory category c3 = Inr r \<longrightarrow> isValid r = (errors r = [])) \<and>
   (\<forall>r. validateBilingualDay day c4 = Inr r \<longrightarrow> isValid r = (errors r = [])) \<and>
   (\<forall>r. validateBilingualScheduleData scheduleData = Inr r \<longrightarrow> isValid r = (errors r = []))"
  using validateBilingualText_isValid validateBilingualSpeaker_isValid
    validateBilingualSession_isValid validateBilingualCategory_isValid
    validateBilingualDay_isValid validateBilingualScheduleData_isValid
  by blast

lemma empty_speaker_result:
  "\<exists>r. validateBilingualSpeaker (JObj []) [] = Inr r \<and> errors r \<noteq> [] \<and> warnings r \<noteq> []"
  by (simp add: validateBilingualSpeaker_def try_bind_def get_prop_def Let_def
      validateBilingualText_def not_nonempty_string_def)

lemma empty_session_result:
  "\<exists>r. validateBilingualSession (JObj [(''speakers'', JArr [JObj []])]) [] = Inr r \<and>
       errors r \<noteq> [] \<and> warnings r \<noteq> []"
  by (simp add: validateBilingualSession_def validateBilingualSpeaker_def try_bind_def get_prop_def
      Let_def validateBilingualText_def not_nonempty_string_def)

lemma plain_category_result:
  "\<exists>r. validateBilingualCategory (JObj [(''name'', JStr ''Talks'')]) [] = Inr r \<and>
       errors r \<noteq> [] \<and> warnings r \<noteq> []"
  by (simp add: validateBilingualCategory_def try_bind_def get_prop_def
      Let_def validateBilingualText_def not_nonempty_string_def trim_def is_space_def)

lemma plain_day_result:
  "\<exists>r. validateBilingualDay (JObj [(''title'', JStr ''Day 1'')]) [] = Inr r \<and>
       errors r \<noteq> [] \<and> warnings r \<noteq> []"
  by (simp add: validateBilingualDay_def try_bind_def get_prop_def
      Let_def validateBilingualText_def trim_def is_space_def)

lemma malformed_document_result:
  "\<exists>r. validateBilingualScheduleData
         (JObj [(''days'', JStr ''not an array''), (''categories'', JArr []),
                (''sessions'', JObj [(''talks'', JArr [])])]) = Inr r \<and>
       errors r \<noteq> [] \<and> warnings r \<noteq> []"
  by (simp add: validateBilingualScheduleData_def validate_days_block_def
      validate_categories_block_def validate_sessions_block_def validate_session_bucket_def
      category_id_set_def new_set_def set_has_def object_keys_def try_bind_def Let_def)

theorem isValid_iff_no_errors_witness:
  "isValid (validateBilingualText (JStr ''Day 1'') ''day.title'' True) \<and>
   warnings (validateBilingualText (JStr ''Day 1'') ''day.title'' True) \<noteq> [] \<and>
   (\<exists>r. validateBilingualSpeaker (JObj []) [] = Inr r \<and> errors r \<noteq> [] \<and> \<not> isValid r) \<and>
   (\<exists>r. validateBilingualSession (JObj [(''speakers'', JArr [JObj []])]) [] = Inr r \<and>
        errors r \<noteq> [] \<and> \<not> isValid r) \<and>
   (\<exists>r. validateBilingualCategory (JObj [(''name'', JStr ''Talks'')]) [] = Inr r \<and>
        errors r \<noteq> [] \<and> \<not> isValid r) \<and>
   (\<exists>r. validateBilingualDay (JObj [(''title'', JStr ''Day 1'')]) [] = Inr r \<and>
        errors r \<noteq> [] \<and> \<not> isValid r) \<and>
   (\<exists>r. validateBilingualScheduleData
         (JObj [(''days'', JStr ''not an array''), (''categories'', JArr []),
                (''sessions'', JObj [(''talks'', JArr [])])]) = Inr r \<and>
        errors r \<noteq> [] \<and> \<not> isValid r)"
proof -
  note inst = isValid_iff_no_errors[of "JStr ''Day 1''" "''day.title''" True
      "JObj []" "[]" "JObj [(''speakers'', JArr [JObj []])]" "[]"
      "JObj [(''name'', JStr ''Talks'')]" "[]" "JObj [(''title'', JStr ''Day 1'')]" "[]"
      "JObj [(''days'', JStr ''not an array''), (''categories'', JArr []),
             (''sessions'', JObj [(''talks'', JArr [])])]"]
  have plain: "errors (validateBilingualText (JStr ''Day 1'') ''day.title'' True) = [] \<and>
      warnings (validateBilingualText (JStr ''Day 1'') ''day.title'' True) \<noteq> []"
    by (simp add: validateBilingualText_def trim_def is_space_def)
  from inst plain empty_speaker_result empty_session_result plain_category_result
    plain_day_result malformed_document_result
  show ?thesis by blast
qed

text \<open>
  C7. The document whose three fields are present and empty passes the library's structural
  validation (no error, no warning, \<open>isValid\<close> true), while the command-line check refuses
  it for its empty \<open>days\<close>.
\<close>

theorem empty_document_is_valid:
  "validateBilingualScheduleData
     (JObj [(''days'', JArr []), (''categories'', JArr []), (''sessions'', JObj [])]) =
   Inr \<lparr>isValid = True, errors = [], warnings = []\<rparr> \<and>
   validateSchedule
     (JObj [(''days'', JArr []), (''categories'', JArr []), (''sessions'', JObj [])]) =
   Inl InvalidOrEmptyDays"
  by (simp add: validateBilingualScheduleData_def validate_days_block_def
      validate_categories_block_def validate_sessions_block_def
      category_id_set_def new_set_def object_keys_def try_bind_def Let_def
      validateSchedule_def get_prop_def array_length_def)

theorem empty_document_is_valid_witness:
  "\<exists>r. validateBilingualScheduleData
         (JObj [(''days'', JArr []), (''categories'', JArr []), (''sessions'', JObj [])]) = Inr r \<and>
       isValid r \<and> errors r = [] \<and> warnings r = []"
  using empty_document_is_valid by simp

text \<open>
  C9. In every result of a validation function, and of the business-rule validator, each
  entry of \<open>errors\<close> has severity \<open>Error\<close> and each entry of \<open>warnings\<close> has severity
  \<open>Warning\<close>.
\<close>

theorem severity_segregation:
  "severity_segregated (validateBilingualText t f req) \<and>
   (\<forall>r. validateBilingualSpeaker speaker c1 = Inr r \<longrightarrow> severity_segregated r) \<and>
   (\<forall>r. validateBilingualSession session c2 = Inr r \<longrightarrow> severity_segregated r) \<and>
   (\<forall>r. validateBilingualCategory category c3 = Inr r \<longrightarrow> severity_segregated r) \<and>
   (\<forall>r. validateBilingualDay day c4 = Inr r \<longrightarrow> severity_segregated r) \<and>
   (\<forall>r. validateBilingualScheduleData scheduleData = Inr r \<longrightarrow> severity_segregated r) \<and>
   severity_segregated (validateBusinessRules scheduleData)"
  using text_segregated speaker_segregated session_segregated category_segregated
    day_segregated document_segregated business_segregated
  by blast

theorem severity_segregation_witness:
  "(\<exists>r. validateBilingualSpeaker (JObj []) [] = Inr r \<and> errors r \<noteq> [] \<and> warnings r \<noteq> [] \<and>
        severity_segregated r) \<and>
   (\<exists>r. validateBilingualSession (JObj [(''speakers'', JArr [JObj []])]) [] = Inr r \<and>
        errors r \<noteq> [] \<and> warnings r \<noteq> [] \<and> severity_segregated r) \<and>
   (\<exists>r. validateBilingualCategory (JObj [(''name'', JStr ''Talks'')]) [] = Inr r \<and>
        errors r \<noteq> [] \<and> warnings r \<noteq> [] \<and> severity_segregated r) \<and>
   (\<exists>r. validateBilingualDay (JObj [(''title'', JStr ''Day 1'')]) [] = Inr r \<and>
        errors r \<noteq> [] \<and> warnings r \<noteq> [] \<and> severity_segregated r) \<and>
   (\<exists>r. validateBilingualScheduleData
         (JObj [(''days'', JStr ''not an array''), (''categories'', JArr []),
                (''sessions'', JObj [(''talks'', JArr [])])]) = Inr r \<and>
        errors r \<noteq> [] \<and> warnings r \<noteq> [] \<and> severity_segregated r)"
proof -
  note inst = severity_segregation[of "JStr ''Day 1''" "''day.title''" True
      "JObj []" "[]" "JObj [(''speakers'', JArr [JObj []])]" "[]"
      "JObj [(''name'', JStr ''Talks'')]" "[]" "JObj [(''title'', JStr ''Day 1'')]" "[]"
      "JObj [(''days'', JStr ''not an array''), (''categories'', JArr []),
             (''sessions'', JObj [(''talks'', JArr [])])]"]
  from inst empty_speaker_result empty_session_result plain_category_result
    plain_day_result malformed_document_result
  show ?thesis by blast
qed

subsection \<open>The accessor\<close>

lemma getBilingualText_string: "getBilingualText (JStr s) l fb = JStr s"
  by (simp add: getBilingualText_def)

lemma getBilingualText_absent:
  "getBilingualText JNull l fb = JStr fb" "getBilingualText JUndefined l fb = JStr fb"
  by (simp_all add: getBilingualText_def)

lemma getBilingualText_pair:
  assumes "has_key ''en'' (JObj kvs) \<or> has_key ''zh'' (JObj kvs)"
    and "is_text_field (prop_of (JObj kvs) ''en'')" "is_text_field (prop_of (JObj kvs) ''zh'')"
  shows "getBilingualText (JObj kvs) l fb =
     JStr (bilingual_choice (field_text (prop_of (JObj kvs) ''en''))
             (field_text (prop_of (JObj kvs) ''zh'')) l fb)"
proof -
  obtain e where e: "prop_of (JObj kvs) ''en'' = e" by simp
  obtain z where z: "prop_of (JObj kvs) ''zh'' = z" by simp
  from assms(2,3) show ?thesis
    unfolding getBilingualText_def e z using assms(1)
    by (cases e; cases z)
       (simp_all add: is_text_field_def field_text_def bilingual_choice_def js_or_def Let_def
          del: prop_of.simps has_key.simps)
qed

text \<open>
  C2. \<open>getBilingualText\<close> returns a plain string unchanged, also the empty one; the fallback
  for \<^verbatim>\<open>null\<close> and \<^verbatim>\<open>undefined\<close>; and for an object with \<open>en\<close> and/or \<open>zh\<close> whose two sides
  are texts (or absent) the requested language when both sides are non-empty, the only
  non-empty side when there is one, the fallback when both are empty.
\<close>

theorem getBilingualText_cases:
  "getBilingualText (JStr s) requested fallback = JStr s \<and>
   getBilingualText JNull requested fallback = JStr fallback \<and>
   getBilingualText JUndefined requested fallback = JStr fallback \<and>
   ((has_key ''en'' (JObj kvs) \<or> has_key ''zh'' (JObj kvs)) \<and>
    is_text_field (prop_of (JObj kvs) ''en'') \<and> is_text_field (prop_of (JObj kvs) ''zh'') \<longrightarrow>
    getBilingualText (JObj kvs) requested fallback =
      JStr (bilingual_choice (field_text (prop_of (JObj kvs) ''en''))
              (field_text (prop_of (JObj kvs) ''zh'')) requested fallback))"
  using getBilingualText_string getBilingualText_absent getBilingualText_pair by blast

theorem getBilingualText_cases_witness:
  "getBilingualText (JObj [(''en'', JStr ''Room 1''), (''zh'', JStr ''Di 1 Ting'')]) ZH ''?'' = JStr ''Di 1 Ting'' \<and>
   getBilingualText (JObj [(''en'', JStr ''Room 1''), (''zh'', JStr ''Di 1 Ting'')]) EN ''?'' = JStr ''Room 1'' \<and>
   getBilingualText (JObj [(''en'', JStr ''Room 1''), (''zh'', JStr [])]) ZH ''?'' = JStr ''Room 1'' \<and>
   getBilingualText (JObj [(''zh'', JStr ''Di 1 Ting'')]) EN ''?'' = JStr ''Di 1 Ting'' \<and>
   getBilingualText (JObj [(''en'', JStr []), (''zh'', JStr [])]) EN ''?'' = JStr ''?''"
proof -
  have "\<And>kvs requested.
      (has_key ''en'' (JObj kvs) \<or> has_key ''zh'' (JObj kvs)) \<and>
      is_text_field (prop_of (JObj kvs) ''en'') \<and> is_text_field (prop_of (JObj kvs) ''zh'') \<Longrightarrow>
      getBilingualText (JObj kvs) requested ''?'' =
        JStr (bilingual_choice (field_text (prop_of (JObj kvs) ''en''))
                (field_text (prop_of (JObj kvs) ''zh'')) requested ''?'')"
    using getBilingualText_cases by blast
  note inst = this[of "[(''en'', JStr ''Room 1''), (''zh'', JStr ''Di 1 Ting'')]" ZH]
    this[of "[(''en'', JStr ''Room 1''), (''zh'', JStr ''Di 1 Ting'')]" EN]
    this[of "[(''en'', JStr ''Room 1''), (''zh'', JStr [])]" ZH]
    this[of "[(''zh'', JStr ''Di 1 Ting'')]" EN]
    this[of "[(''en'', JStr []), (''zh'', JStr [])]" EN]
  show ?thesis
    by (intro conjI; subst inst; simp add: is_text_field_def field_text_def bilingual_choice_def)
qed

subsection \<open>Sorting a copy\<close>

lemma insert_sorted_mset: "insert_sorted cmp x ys = Inr zs \<Longrightarrow> mset zs = add_mset x (mset ys)"
  by (induction ys arbitrary: zs) (auto simp: try_bind_Inr split: if_splits)

lemma sort_with_mset: "sort_with cmp xs = Inr ys \<Longrightarrow> mset ys = mset xs"
  by (induction xs arbitrary: ys) (auto simp: try_bind_Inr dest: insert_sorted_mset)

lemma insert_sorted_set: "insert_sorted cmp x ys = Inr zs \<Longrightarrow> set zs = insert x (set ys)"
  by (induction ys arbitrary: zs) (auto simp: try_bind_Inr split: if_splits)

lemma compare_sessions_Inr:
  "compare_sessions lc a b = Inr c \<longleftrightarrow>
     (\<exists>ka kb. time_key a = Inr ka \<and> time_key b = Inr kb \<and> c = lc ka kb)"
  by (auto simp: compare_sessions_def try_bind_Inr)

lemma in_time_order_iff:
  "in_time_order lc a b \<longleftrightarrow> (\<exists>ka kb. time_key a = Inr ka \<and> time_key b = Inr kb \<and> lc ka kb \<le> 0)"
  by (cases "compare_sessions lc a b") (auto simp: in_time_order_def compare_sessions_def try_bind_def split: sum.splits)

lemma in_time_order_trans:
  assumes "consistent_collation lc" "in_time_order lc a b" "in_time_order lc b c"
  shows "in_time_order lc a c"
  using assms unfolding in_time_order_iff consistent_collation_def
  by (metis sum.inject(2))

lemma in_time_order_total:
  assumes "consistent_collation lc" "compare_sessions lc a b = Inr c" "0 < c"
  shows "in_time_order lc b a"
  using assms unfolding in_time_order_iff consistent_collation_def compare_sessions_Inr
  by blast

lemma insert_sorted_sorted:
  assumes lc: "consistent_collation lc"
  shows "insert_sorted (compare_sessions lc) x ys = Inr zs \<Longrightarrow>
         sorted_wrt (in_time_order lc) ys \<Longrightarrow> sorted_wrt (in_time_order lc) zs"
proof (induction ys arbitrary: zs)
  case Nil
  then show ?case by auto
next
  case (Cons y ys)
  from Cons.prems(1) obtain c where c: "compare_sessions lc x y = Inr c"
    by (auto simp: try_bind_Inr)
  show ?case
  proof (cases "c \<le> 0")
    case True
    with c Cons.prems have zs: "zs = x # y # ys" by (simp add: try_bind_def)
    from True c have xy: "in_time_order lc x y" by (simp add: in_time_order_def)
    with Cons.prems(2) have "\<forall>z \<in> set ys. in_time_order lc x z"
      by (auto intro: in_time_order_trans[OF lc])
    with xy Cons.prems(2) zs show ?thesis by simp
  next
    case False
    with c Cons.prems(1) obtain zs' where zs': "insert_sorted (compare_sessions lc) x ys = Inr zs'"
      and zs: "zs = y # zs'"
      by (auto simp: try_bind_def split: sum.splits)
    from False c have yx: "in_time_order lc y x"
      by (intro in_time_order_total[OF lc c]) simp
    from Cons.prems(2) have "sorted_wrt (in_time_order lc) ys" by simp
    from Cons.IH[OF zs' this] have s: "sorted_wrt (in_time_order lc) zs'" .
    from insert_sorted_set[OF zs'] yx Cons.prems(2) have "\<forall>z \<in> set zs'. in_time_order lc y z"
      by auto
    with s zs show ?thesis by simp
  qed
qed

lemma sort_with_sorted:
  assumes lc: "consistent_collation lc"
  shows "sort_with (compare_sessions lc) xs = Inr ys \<Longrightarrow> sorted_wrt (in_time_order lc) ys"
proof (induction xs arbitrary: ys)
  case Nil
  then show ?case by simp
next
  case (Cons x xs)
  then obtain ys' where "sort_with (compare_sessions lc) xs = Inr ys'"
    "insert_sorted (compare_sessions lc) x ys' = Inr ys"
    by (auto simp: try_bind_Inr)
  with Cons.IH insert_sorted_sorted[OF lc] show ?case by blast
qed


lemma sortSessionsByTime_frame:
  assumes "sessions < length h" and "sortSessionsByTime lc h sessions = (h', r)"
  shows "take (length h) h' = h \<and>
         (\<forall>copy. r = Inr copy \<longrightarrow> copy = length h \<and> copy \<noteq> sessions \<and>
            mset (h' ! copy) = mset (h ! sessions) \<and>
            (consistent_collation lc \<longrightarrow>
               sorted_wrt (in_time_order lc) (filter (\<lambda>x. x \<noteq> JUndefined) (h' ! copy))))"
proof (cases "sort_with (compare_sessions lc) (filter (\<lambda>x. x \<noteq> JUndefined) (h ! sessions))")
  case (Inl e)
  with assms show ?thesis
    by (auto simp: sortSessionsByTime_def array_spread_def array_sort_def)
next
  case (Inr ys)
  from sort_with_mset[OF Inr]
  have m: "mset (ys @ filter (\<lambda>x. x = JUndefined) (h ! sessions)) = mset (h ! sessions)"
    by (simp add: union_commute)
  from sort_with_mset[OF Inr] have "set ys = set (filter (\<lambda>x. x \<noteq> JUndefined) (h ! sessions))"
    by (rule mset_eq_setD)
  then have f: "filter (\<lambda>x. x \<noteq> JUndefined) (ys @ filter (\<lambda>x. x = JUndefined) (h ! sessions)) = ys"
    by (auto simp: filter_id_conv filter_empty_conv)
  from Inr assms have r: "r = Inr (length h)"
    and h': "h' = h @ [ys @ filter (\<lambda>x. x = JUndefined) (h ! sessions)]"
    by (auto simp: sortSessionsByTime_def array_spread_def array_sort_def nth_append)
  from r h' m f assms(1) sort_with_sorted[OF _ Inr] show ?thesis
    by (auto simp: nth_append)
qed

text \<open>
  C10. \<open>sortSessionsByTime\<close> leaves the array it is given as it was (and every other array of
  the store): when it returns, it returns a new array that holds the same sessions, in the
  order of the comparison function when the collation is consistent.
\<close>

theorem sortSessionsByTime_leaves_argument:
  assumes "sessions < length h" and "sortSessionsByTime localeCompare h sessions = (h', r)"
  shows "h' ! sessions = h ! sessions \<and> take (length h) h' = h \<and>
         (\<forall>copy. r = Inr copy \<longrightarrow> copy = length h \<and> copy \<noteq> sessions \<and>
            mset (h' ! copy) = mset (h ! sessions) \<and>
            (consistent_collation localeCompare \<longrightarrow>
               sorted_wrt (in_time_order localeCompare)
                 (filter (\<lambda>x. x \<noteq> JUndefined) (h' ! copy))))"
proof -
  from sortSessionsByTime_frame[OF assms]
  have frame: "take (length h) h' = h" and rest: "\<forall>copy. r = Inr copy \<longrightarrow> copy = length h \<and> copy \<noteq> sessions \<and>
            mset (h' ! copy) = mset (h ! sessions) \<and>
            (consistent_collation localeCompare \<longrightarrow>
               sorted_wrt (in_time_order localeCompare)
                 (filter (\<lambda>x. x \<noteq> JUndefined) (h' ! copy)))"
    by blast+
  from frame assms(1) have "h' ! sessions = h ! sessions"
    by (metis nth_take)
  with frame rest show ?thesis by blast
qed

lemma length_collation_consistent:
  "consistent_collation (\<lambda>a b. int (length a) - int (length b))"
  by (simp add: consistent_collation_def)

theorem sortSessionsByTime_leaves_argument_witness:
  "\<exists>h'. sortSessionsByTime (\<lambda>a b. int (length a) - int (length b))
          [[JObj [(''timeSlot'', JStr ''10:15 - 10:50'')], JObj [(''timeSlot'', JStr ''9:00 - 9:30'')]]] 0
        = (h', Inr 1) \<and>
        h' ! 0 = [JObj [(''timeSlot'', JStr ''10:15 - 10:50'')], JObj [(''timeSlot'', JStr ''9:00 - 9:30'')]] \<and>
        h' ! 1 = [JObj [(''timeSlot'', JStr ''9:00 - 9:30'')], JObj [(''timeSlot'', JStr ''10:15 - 10:50'')]] \<and>
        sorted_wrt (in_time_order (\<lambda>a b. int (length a) - int (length b)))
          (filter (\<lambda>x. x \<noteq> JUndefined) (h' ! 1))"
proof -
  let ?A = "JObj [(''timeSlot'', JStr ''10:15 - 10:50'')]"
  let ?B = "JObj [(''timeSlot'', JStr ''9:00 - 9:30'')]"
  let ?lc = "\<lambda>a b. int (length a) - int (length b)"
  have run: "sortSessionsByTime ?lc [[?A, ?B]] 0 = ([[?A, ?B], [?B, ?A]], Inr 1)"
    by (simp add: sortSessionsByTime_def array_spread_def array_sort_def compare_sessions_def
        time_key_def get_prop_def try_bind_def)
  have "0 < length [[?A, ?B]]" by simp
  from sortSessionsByTime_leaves_argument[OF this run] length_collation_consistent
  have "[[?A, ?B], [?B, ?A]] ! 0 = [[?A, ?B]] ! 0 \<and>
        sorted_wrt (in_time_order ?lc) (filter (\<lambda>x. x \<noteq> JUndefined) ([[?A, ?B], [?B, ?A]] ! 1))"
    by blast
  with run show ?thesis by simp
qed

subsection \<open>Duplicate category identifiers\<close>

lemma no_dup_errors_simps [simp]:
  "no_dup_errors []" "no_dup_errors (e # es) = (\<not> is_duplicate_category_error e \<and> no_dup_errors es)"
  "no_dup_errors (es @ es') = (no_dup_errors es \<and> no_dup_errors es')"
  by (auto simp: no_dup_errors_def)

lemma text_no_dup [simp]: "no_dup_errors (errors (validateBilingualText t f req))"
  by (simp add: validateBilingualText_def Let_def is_duplicate_category_error_def mk_error_def)

lemma speaker_no_dup: "validateBilingualSpeaker s c = Inr r \<Longrightarrow> no_dup_errors (errors r)"
  by (auto simp: validateBilingualSpeaker_def try_bind_Inr Let_def is_duplicate_category_error_def mk_error_def)

lemma category_no_dup: "validateBilingualCategory s c = Inr r \<Longrightarrow> no_dup_errors (errors r)"
  by (auto simp: validateBilingualCategory_def try_bind_Inr Let_def is_duplicate_category_error_def mk_error_def)

lemma day_no_dup: "validateBilingualDay s c = Inr r \<Longrightarrow> no_dup_errors (errors r)"
  by (auto simp: validateBilingualDay_def try_bind_Inr Let_def)

lemma validate_each_no_dup:
  assumes "\<And>x i r. f x i = Inr r \<Longrightarrow> no_dup_errors (errors r)"
  shows "validate_each f i xs = Inr (es, ws) \<Longrightarrow> no_dup_errors es"
proof (induction xs arbitrary: i es ws)
  case Nil
  then show ?case by simp
next
  case (Cons x xs)
  from Cons.prems obtain r es' ws' where
    r: "f x i = Inr r" and rest: "validate_each f (Suc i) xs = Inr (es', ws')"
    and eq: "es = errors r @ es'"
    by (auto simp: try_bind_Inr)
  from assms[OF r] Cons.IH[OF rest] eq show ?case by simp
qed

lemma session_no_dup:
  assumes "validateBilingualSession s c = Inr r"
  shows "no_dup_errors (errors r)"
proof -
  from assms obtain speakers where sp: "get_prop s ''speakers'' = Inr speakers"
    by (auto simp: validateBilingualSession_def try_bind_Inr)
  show ?thesis
  proof (cases speakers)
    case (JArr sps)
    with assms sp show ?thesis
      unfolding validateBilingualSession_def Let_def
      by (auto simp: try_bind_Inr is_duplicate_category_error_def mk_error_def
          dest!: validate_each_no_dup[OF speaker_no_dup, rotated])
  qed (use assms sp in \<open>auto simp: validateBilingualSession_def try_bind_Inr Let_def
        is_duplicate_category_error_def mk_error_def\<close>)
qed

lemma days_block_no_dup:
  assumes "validate_days_block d = Inr (es, ws)"
  shows "no_dup_errors es"
  using assms
  by (cases "prop_of d ''days''")
     (auto simp: validate_days_block_def is_duplicate_category_error_def mk_error_def
       dest!: validate_each_no_dup[OF day_no_dup, rotated])

lemma session_bucket_no_dup:
  assumes "validate_session_bucket so k = Inr (es, ws)"
  shows "no_dup_errors es"
  using assms
  by (cases "prop_of so k")
     (auto simp: validate_session_bucket_def is_duplicate_category_error_def mk_error_def
       dest!: validate_each_no_dup[OF session_no_dup, rotated])

lemma session_keys_no_dup:
  "validate_session_keys so S ks = Inr (es, ws) \<Longrightarrow> no_dup_errors es"
proof (induction ks arbitrary: es ws)
  case Nil
  then show ?case by simp
next
  case (Cons k ks)
  from Cons.prems obtain es1 ws1 es' ws' where
    one: "validate_session_bucket so k = Inr (es1, ws1)"
    and rest: "validate_session_keys so S ks = Inr (es', ws')"
    and eq: "es = es1 @ es'"
    by (auto simp: try_bind_Inr Let_def)
  from session_bucket_no_dup[OF one] Cons.IH[OF rest] eq show ?case by simp
qed

lemma sessions_block_no_dup:
  assumes "validate_sessions_block d = Inr (es, ws)"
  shows "no_dup_errors es"
  using assms
  by (auto simp: validate_sessions_block_def Let_def try_bind_Inr is_duplicate_category_error_def
      mk_error_def split: if_splits dest: session_keys_no_dup)


lemma set_has_mem: "set_has S x \<Longrightarrow> x \<in> set S"
  by (cases x) (auto simp: set_has_def list_ex_iff)

lemma set_has_JStr [simp]: "set_has S (JStr a) = (JStr a \<in> set S)"
  by (auto simp: set_has_def list_ex_iff)

lemma validateBilingualCategory_get_id:
  "validateBilingualCategory c cx = Inr r \<Longrightarrow> get_prop c ''id'' = Inr (prop_of c ''id'')"
  by (auto simp: validateBilingualCategory_def try_bind_Inr get_prop_def split: if_splits)

lemma validate_categories_Cons:
  assumes "validate_categories i S (c # cs) = Inr (es, ws)"
  obtains r es' ws' where
    "validateBilingualCategory c (''categories['' @ str_of_nat i @ '']'') = Inr r"
    "validate_categories (Suc i)
       (if truthy (prop_of c ''id'') \<and> \<not> set_has S (prop_of c ''id'') then S @ [prop_of c ''id''] else S) cs
     = Inr (es', ws')"
    "es = errors r @
       (if truthy (prop_of c ''id'') \<and> set_has S (prop_of c ''id'')
        then [duplicate_category_error (prop_of c ''id'') i] else []) @ es'"
    "ws = warnings r @ ws'"
proof -
  from assms obtain r where
    r: "validateBilingualCategory c (''categories['' @ str_of_nat i @ '']'') = Inr r"
    by (auto simp: try_bind_Inr)
  note g = validateBilingualCategory_get_id[OF r]
  from assms r g that show ?thesis
    by (simp add: try_bind_def Let_def split: sum.splits prod.splits)
qed

lemma categories_duplicates:
  "validate_categories i S cs = Inr (es, ws) \<Longrightarrow>
   map message (filter is_duplicate_category_error es) =
   map duplicate_category_message
     (repeated_ids S (map (\<lambda>c. prop_of c ''id'') cs))"
proof (induction cs arbitrary: i S es ws)
  case Nil
  then show ?case by simp
next
  case (Cons c cs)
  let ?cid = "prop_of c ''id''"
  let ?S' = "if truthy ?cid \<and> \<not> set_has S ?cid then S @ [?cid] else S"
  from Cons.prems obtain r es' ws' where
    r: "validateBilingualCategory c (''categories['' @ str_of_nat i @ '']'') = Inr r"
    and rest: "validate_categories (Suc i) ?S' cs = Inr (es', ws')"
    and eq: "es = errors r @ (if truthy ?cid \<and> set_has S ?cid then [duplicate_category_error ?cid i] else []) @ es'"
    by (rule validate_categories_Cons)
  have nd: "filter is_duplicate_category_error (errors r) = []"
    using category_no_dup[OF r] by (simp add: no_dup_errors_def)
  have isd: "is_duplicate_category_error (duplicate_category_error ?cid i)"
    by (simp add: is_duplicate_category_error_def duplicate_category_error_def mk_error_def
        duplicate_category_message_def)
  have msg: "message (duplicate_category_error ?cid i) = duplicate_category_message ?cid"
    by (simp add: duplicate_category_error_def mk_error_def)
  show ?case
  proof (cases "truthy ?cid \<and> set_has S ?cid")
    case True
    then have "?S' = S" by simp
    with Cons.IH[OF rest[unfolded this]] eq nd isd msg True show ?thesis by simp
  next
    case False
    then have S': "?S' = (if truthy ?cid then S @ [?cid] else S)" by auto
    from False have e: "es = errors r @ es'" using eq by simp
    from Cons.IH[OF rest[unfolded S']] e nd False show ?thesis by auto
  qed
qed

lemma count_list_tail_le: "count_list xs y \<le> count_list (x # xs) y"
  by simp

lemma count_le_1_tail:
  assumes "\<forall>y. P y \<longrightarrow> count_list (x # xs) y \<le> 1"
  shows "\<forall>y. P y \<longrightarrow> count_list xs y \<le> 1"
proof (intro allI impI)
  fix y assume "P y"
  with assms have "count_list (x # xs) y \<le> 1" by blast
  with count_list_tail_le[of xs y x] show "count_list xs y \<le> 1" by linarith
qed

lemma count_head_le_1:
  assumes "count_list (x # xs) x \<le> 1"
  shows "x \<notin> set xs"
proof -
  from assms have "count_list xs x = 0" by simp
  then show ?thesis by (simp add: count_list_0_iff)
qed

lemma repeated_ids_none:
  assumes "\<forall>x. truthy x \<longrightarrow> x \<in> set S \<longrightarrow> x \<notin> set xs"
    and "\<forall>x. truthy x \<longrightarrow> count_list xs x \<le> 1"
  shows "repeated_ids S xs = []"
  using assms
proof (induction xs arbitrary: S)
  case Nil
  then show ?case by simp
next
  case (Cons x xs)
  have cnt: "\<forall>y. truthy y \<longrightarrow> count_list xs y \<le> 1"
    using Cons.prems(2) by (rule count_le_1_tail)
  show ?case
  proof (cases "truthy x")
    case False
    have "\<forall>y. truthy y \<longrightarrow> y \<in> set S \<longrightarrow> y \<notin> set xs"
      using Cons.prems(1) by simp
    from Cons.IH[OF this cnt] False show ?thesis by simp
  next
    case True
    have "x \<in> set S \<longrightarrow> x \<notin> set (x # xs)" using Cons.prems(1) True by blast
    then have nh: "\<not> set_has S x" using set_has_mem[of S x] by auto
    from True Cons.prems(2) have "count_list (x # xs) x \<le> 1" by blast
    then have "x \<notin> set xs" by (rule count_head_le_1)
    with Cons.prems(1) have "\<forall>y. truthy y \<longrightarrow> y \<in> set (S @ [x]) \<longrightarrow> y \<notin> set xs" by simp
    from Cons.IH[OF this cnt] True nh show ?thesis by simp
  qed
qed

lemma repeated_ids_step_other:
  assumes x: "x \<noteq> JStr a"
    and fresh: "\<forall>y. truthy y \<longrightarrow> y \<noteq> JStr a \<longrightarrow> y \<in> set S \<longrightarrow> y \<notin> set (x # xs)"
    and cnt: "\<forall>y. truthy y \<and> y \<noteq> JStr a \<longrightarrow> count_list (x # xs) y \<le> 1"
  shows "repeated_ids S (x # xs) = repeated_ids (if truthy x then S @ [x] else S) xs \<and>
         (\<forall>y. truthy y \<longrightarrow> y \<noteq> JStr a \<longrightarrow> y \<in> set (if truthy x then S @ [x] else S) \<longrightarrow> y \<notin> set xs)"
proof (cases "truthy x")
  case False
  with fresh show ?thesis by simp
next
  case True
  have "x \<in> set S \<longrightarrow> x \<notin> set (x # xs)" using fresh True x by blast
  then have nh: "\<not> set_has S x" using set_has_mem[of S x] by auto
  from True x cnt have "count_list (x # xs) x \<le> 1" by blast
  then have "x \<notin> set xs" by (rule count_head_le_1)
  with fresh True nh show ?thesis by simp
qed

lemma repeated_ids_one_pending:
  assumes "JStr a \<in> set S" "a \<noteq> []" "count_list xs (JStr a) = 1"
    and "\<forall>x. truthy x \<longrightarrow> x \<noteq> JStr a \<longrightarrow> x \<in> set S \<longrightarrow> x \<notin> set xs"
    and "\<forall>x. truthy x \<and> x \<noteq> JStr a \<longrightarrow> count_list xs x \<le> 1"
  shows "repeated_ids S xs = [JStr a]"
  using assms
proof (induction xs arbitrary: S)
  case Nil
  then show ?case by simp
next
  case (Cons x xs)
  have cnt: "\<forall>y. truthy y \<and> y \<noteq> JStr a \<longrightarrow> count_list xs y \<le> 1"
    using Cons.prems(5) by (rule count_le_1_tail)
  show ?case
  proof (cases "x = JStr a")
    case True
    with Cons.prems(3) have c0: "count_list xs (JStr a) = 0" by simp
    then have na: "JStr a \<notin> set xs" by (simp add: count_list_0_iff)
    have "\<forall>y. truthy y \<longrightarrow> y \<in> set S \<longrightarrow> y \<notin> set xs"
      using Cons.prems(4) na by auto
    moreover have "\<forall>y. truthy y \<longrightarrow> count_list xs y \<le> 1"
    proof (intro allI impI)
      fix y assume "truthy y"
      with cnt c0 show "count_list xs y \<le> 1" by (cases "y = JStr a") auto
    qed
    ultimately have "repeated_ids S xs = []" by (rule repeated_ids_none)
    with True Cons.prems(1,2) show ?thesis by simp
  next
    case False
    with Cons.prems(3) have c1: "count_list xs (JStr a) = 1" by simp
    let ?S = "if truthy x then S @ [x] else S"
    from repeated_ids_step_other[OF False Cons.prems(4,5)]
    have step: "repeated_ids S (x # xs) = repeated_ids ?S xs"
      and fresh: "\<forall>y. truthy y \<longrightarrow> y \<noteq> JStr a \<longrightarrow> y \<in> set ?S \<longrightarrow> y \<notin> set xs"
      by blast+
    from Cons.prems(1) have "JStr a \<in> set ?S" by simp
    from Cons.IH[OF this Cons.prems(2) c1 fresh cnt] step show ?thesis by simp
  qed
qed

lemma repeated_ids_twice:
  assumes "JStr a \<notin> set S" "a \<noteq> []" "count_list xs (JStr a) = 2"
    and "\<forall>x. truthy x \<longrightarrow> x \<noteq> JStr a \<longrightarrow> x \<in> set S \<longrightarrow> x \<notin> set xs"
    and "\<forall>x. truthy x \<and> x \<noteq> JStr a \<longrightarrow> count_list xs x \<le> 1"
  shows "repeated_ids S xs = [JStr a]"
  using assms
proof (induction xs arbitrary: S)
  case Nil
  then show ?case by simp
next
  case (Cons x xs)
  have cnt: "\<forall>y. truthy y \<and> y \<noteq> JStr a \<longrightarrow> count_list xs y \<le> 1"
    using Cons.prems(5) by (rule count_le_1_tail)
  show ?case
  proof (cases "x = JStr a")
    case True
    with Cons.prems(3) have c1: "count_list xs (JStr a) = 1" by simp
    have "\<forall>y. truthy y \<longrightarrow> y \<noteq> JStr a \<longrightarrow> y \<in> set (S @ [JStr a]) \<longrightarrow> y \<notin> set xs"
      using Cons.prems(4) by auto
    moreover have "JStr a \<in> set (S @ [JStr a])" by simp
    ultimately have "repeated_ids (S @ [JStr a]) xs = [JStr a]"
      using Cons.prems(2) c1 cnt by (intro repeated_ids_one_pending)
    with True Cons.prems(1,2) show ?thesis by simp
  next
    case False
    with Cons.prems(3) have c2: "count_list xs (JStr a) = 2" by simp
    let ?S = "if truthy x then S @ [x] else S"
    from repeated_ids_step_other[OF False Cons.prems(4,5)]
    have step: "repeated_ids S (x # xs) = repeated_ids ?S xs"
      and fresh: "\<forall>y. truthy y \<longrightarrow> y \<noteq> JStr a \<longrightarrow> y \<in> set ?S \<longrightarrow> y \<notin> set xs"
      by blast+
    from Cons.prems(1) False have "JStr a \<notin> set ?S" by auto
    from Cons.IH[OF this Cons.prems(2) c2 fresh cnt] step show ?thesis by simp
  qed
qed

lemma categories_block_duplicates:
  assumes "validate_categories_block d = Inr (es, ws)" "prop_of d ''categories'' = JArr cs"
  shows "map message (filter is_duplicate_category_error es) =
     map duplicate_category_message (repeated_ids [] (map (\<lambda>c. prop_of c ''id'') cs))"
  using assms by (simp add: validate_categories_block_def categories_duplicates)

text \<open>
  C5. When validation returns and exactly two categories carry the identifier \<open>a\<close> (every
  other identifier occurring once), exactly one error reports a duplicate category
  identifier, and it names \<open>a\<close>.
\<close>

theorem duplicate_category_reported_once:
  assumes "validateBilingualScheduleData scheduleData = Inr r"
    and "prop_of scheduleData ''categories'' = JArr categories"
    and "a \<noteq> []"
    and "count_list (map (\<lambda>c. prop_of c ''id'') categories) (JStr a) = 2"
    and "\<forall>x. truthy x \<and> x \<noteq> JStr a \<longrightarrow> count_list (map (\<lambda>c. prop_of c ''id'') categories) x \<le> 1"
  shows "map message (filter is_duplicate_category_error (errors r)) =
     [''Duplicate category ID '' @ quoted a @ '' found'']"
proof -
  from assms(2) have obj: "\<not> (\<not> truthy scheduleData \<or> typeof scheduleData \<noteq> TObject)"
    by (cases scheduleData) (auto split: option.splits if_splits)
  with assms(1) obtain de dw ce cw se sw where
    parts: "validate_days_block scheduleData = Inr (de, dw)"
      "validate_categories_block scheduleData = Inr (ce, cw)"
      "validate_sessions_block scheduleData = Inr (se, sw)"
    and r: "errors r = de @ ce @ se"
    by (auto simp: validateBilingualScheduleData_def try_bind_Inr Let_def)
  from days_block_no_dup[OF parts(1)] sessions_block_no_dup[OF parts(3)] r
  have "filter is_duplicate_category_error (errors r) = filter is_duplicate_category_error ce"
    by (simp add: no_dup_errors_def)
  also have "map message \<dots> =
      map duplicate_category_message (repeated_ids [] (map (\<lambda>c. prop_of c ''id'') categories))"
    using parts(2) assms(2) by (rule categories_block_duplicates)
  also have "repeated_ids [] (map (\<lambda>c. prop_of c ''id'') categories) = [JStr a]"
    using assms(3,4,5) by (intro repeated_ids_twice) simp_all
  finally show ?thesis by (simp add: duplicate_category_message_def)
qed


lemma three_categories_validate:
  "\<exists>ce cw. validate_categories_block
     (JObj [(''days'', JArr []),
            (''categories'', JArr [JObj [(''id'', JStr ''a'')], JObj [(''id'', JStr ''b'')],
                                   JObj [(''id'', JStr ''a'')]]),
            (''sessions'', JObj [])]) = Inr (ce, cw)"
  by (simp add: validate_categories_block_def validateBilingualCategory_def try_bind_def
      get_prop_def Let_def)

lemma three_categories_document:
  "\<exists>r. validateBilingualScheduleData
     (JObj [(''days'', JArr []),
            (''categories'', JArr [JObj [(''id'', JStr ''a'')], JObj [(''id'', JStr ''b'')],
                                   JObj [(''id'', JStr ''a'')]]),
            (''sessions'', JObj [])]) = Inr r"
proof -
  let ?d = "JObj [(''days'', JArr []),
            (''categories'', JArr [JObj [(''id'', JStr ''a'')], JObj [(''id'', JStr ''b'')],
                                   JObj [(''id'', JStr ''a'')]]),
            (''sessions'', JObj [])]"
  from three_categories_validate obtain ce cw where c: "validate_categories_block ?d = Inr (ce, cw)"
    by blast
  have d: "validate_days_block ?d = Inr ([], [])"
    by (simp add: validate_days_block_def)
  have s: "validate_sessions_block ?d = Inr ([], [])"
    by (simp add: validate_sessions_block_def category_id_set_def object_keys_def try_bind_def
        get_prop_def Let_def)
  show ?thesis
    unfolding validateBilingualScheduleData_def c d s by (simp add: try_bind_def)
qed

theorem duplicate_category_reported_once_witness:
  "\<exists>r. validateBilingualScheduleData
         (JObj [(''days'', JArr []),
                (''categories'', JArr [JObj [(''id'', JStr ''a'')], JObj [(''id'', JStr ''b'')],
                                       JObj [(''id'', JStr ''a'')]]),
                (''sessions'', JObj [])]) = Inr r \<and>
       map message (filter is_duplicate_category_error (errors r)) =
         [''Duplicate category ID '' @ quoted ''a'' @ '' found'']"
proof -
  let ?cs = "[JObj [(''id'', JStr ''a'')], JObj [(''id'', JStr ''b'')], JObj [(''id'', JStr ''a'')]]"
  let ?d = "JObj [(''days'', JArr []), (''categories'', JArr ?cs), (''sessions'', JObj [])]"
  from three_categories_document obtain r where r: "validateBilingualScheduleData ?d = Inr r" ..
  have cats: "prop_of ?d ''categories'' = JArr ?cs" by simp
  have ne: "''a'' \<noteq> []" by simp
  have two: "count_list (map (\<lambda>c. prop_of c ''id'') ?cs) (JStr ''a'') = 2" by simp
  have others: "\<forall>x. truthy x \<and> x \<noteq> JStr ''a'' \<longrightarrow> count_list (map (\<lambda>c. prop_of c ''id'') ?cs) x \<le> 1"
    by simp
  from duplicate_category_reported_once[OF r cats ne two others]
  have "map message (filter is_duplicate_category_error (errors r)) =
         [''Duplicate category ID '' @ quoted ''a'' @ '' found'']" .
  with r show ?thesis by (intro exI[of _ r] conjI)
qed


subsection \<open>Speakers that recur\<close>

lemma and_then_Inr:
  "and_then m k = (w, Inr y) \<longleftrightarrow> (\<exists>w1 s w2. m = (w1, Inr s) \<and> k s = (w2, Inr y) \<and> w = w1 @ w2)"
  by (cases m) (auto simp: and_then_def split: sum.splits prod.splits)

lemma expr_Inr: "expr m = (w, Inr v) \<longleftrightarrow> m = Inr v \<and> w = []"
  by (auto simp: expr_def)

lemma for_each_Cons_Inr:
  "for_each body i (x # xs) st = (w, Inr st') \<longleftrightarrow>
   (\<exists>w1 st1 w2. body x i st = (w1, Inr st1) \<and> for_each body (Suc i) xs st1 = (w2, Inr st') \<and> w = w1 @ w2)"
  by (auto split: sum.splits prod.splits)

lemma get_prop_Inr: "get_prop v k = Inr x \<longleftrightarrow> \<not> nullish v \<and> x = prop_of v k"
  by (auto simp: get_prop_def)

lemma speakers_loop:
  "for_each (\<lambda>speaker k st. and_then (expr (get_prop speaker ''id''))
       (\<lambda>sid. ([], Inr (note_speaker_id sid st)))) i sps st = (w, Inr st') \<Longrightarrow>
   w = [] \<and> st' = foldl note_speaker st sps"
proof (induction sps arbitrary: i st w)
  case Nil
  then show ?case by simp
next
  case (Cons sp sps)
  from Cons.prems obtain w1 st1 w2 where
    b: "and_then (expr (get_prop sp ''id'')) (\<lambda>sid. ([], Inr (note_speaker_id sid st))) = (w1, Inr st1)"
    and rest: "for_each (\<lambda>speaker k st. and_then (expr (get_prop speaker ''id''))
       (\<lambda>sid. ([], Inr (note_speaker_id sid st)))) (Suc i) sps st1 = (w2, Inr st')"
    and w: "w = w1 @ w2"
    unfolding for_each_Cons_Inr by blast
  from b have "w1 = []" "st1 = note_speaker st sp"
    by (auto simp: and_then_Inr expr_Inr get_prop_Inr note_speaker_def)
  with Cons.IH[OF rest] w show ?case by simp
qed

lemma session_step:
  assumes "and_then (expr (get_prop session ''speakers'')) (\<lambda>speakers.
             js_forEach_opt speakers
               (\<lambda>speaker k st. and_then (expr (get_prop speaker ''id''))
                  (\<lambda>sid. ([], Inr (note_speaker_id sid st)))) st) = (w, Inr st')"
  shows "w = [] \<and> st' = foldl note_speaker st (session_speakers session)"
proof -
  let ?sp = "prop_of session ''speakers''"
  from assms have run: "js_forEach_opt ?sp
               (\<lambda>speaker k st. and_then (expr (get_prop speaker ''id''))
                  (\<lambda>sid. ([], Inr (note_speaker_id sid st)))) st = (w, Inr st')"
    by (auto simp: and_then_Inr expr_Inr get_prop_Inr)
  show ?thesis
  proof (cases "nullish ?sp")
    case True
    with run show ?thesis
      by (cases ?sp) (auto simp: js_forEach_opt_def session_speakers_def elements_def)
  next
    case False
    with run obtain sps where sps: "?sp = JArr sps"
      by (cases ?sp) (auto simp: js_forEach_opt_def js_forEach_def)
    with run False speakers_loop[of 0 sps st w st'] show ?thesis
      by (simp add: js_forEach_opt_def js_forEach_def session_speakers_def elements_def)
  qed
qed

lemma sessions_loop:
  "for_each (\<lambda>session j st.
       and_then (expr (get_prop session ''speakers'')) (\<lambda>speakers.
         js_forEach_opt speakers
           (\<lambda>speaker k st. and_then (expr (get_prop speaker ''id''))
              (\<lambda>sid. ([], Inr (note_speaker_id sid st)))) st)) i ss st = (w, Inr st') \<Longrightarrow>
   w = [] \<and> st' = foldl note_speaker st (concat (map session_speakers ss))"
proof (induction ss arbitrary: i st w)
  case Nil
  then show ?case by simp
next
  case (Cons s ss)
  from Cons.prems[unfolded for_each_Cons_Inr] obtain w1 st1 w2 where
    b: "and_then (expr (get_prop s ''speakers'')) (\<lambda>speakers.
         js_forEach_opt speakers
           (\<lambda>speaker k st. and_then (expr (get_prop speaker ''id''))
              (\<lambda>sid. ([], Inr (note_speaker_id sid st)))) st) = (w1, Inr st1)"
    and rest: "for_each (\<lambda>session j st.
       and_then (expr (get_prop session ''speakers'')) (\<lambda>speakers.
         js_forEach_opt speakers
           (\<lambda>speaker k st. and_then (expr (get_prop speaker ''id''))
              (\<lambda>sid. ([], Inr (note_speaker_id sid st)))) st)) (Suc i) ss st1 = (w2, Inr st')"
    and w: "w = w1 @ w2"
    by blast
  from session_step[OF b] Cons.IH[OF rest] w show ?case by simp
qed

lemma buckets_loop:
  "for_each (\<lambda>sessions i st.
       js_forEach sessions
         (\<lambda>session j st.
            and_then (expr (get_prop session ''speakers'')) (\<lambda>speakers.
              js_forEach_opt speakers
                (\<lambda>speaker k st. and_then (expr (get_prop speaker ''id''))
                   (\<lambda>sid. ([], Inr (note_speaker_id sid st)))) st)) st) i bs st = (w, Inr st') \<Longrightarrow>
   w = [] \<and> st' = foldl note_speaker st (concat (map bucket_speakers bs))"
proof (induction bs arbitrary: i st w)
  case Nil
  then show ?case by simp
next
  case (Cons b bs)
  from Cons.prems[unfolded for_each_Cons_Inr] obtain w1 st1 w2 where
    b: "js_forEach b
         (\<lambda>session j st.
            and_then (expr (get_prop session ''speakers'')) (\<lambda>speakers.
              js_forEach_opt speakers
                (\<lambda>speaker k st. and_then (expr (get_prop speaker ''id''))
                   (\<lambda>sid. ([], Inr (note_speaker_id sid st)))) st)) st = (w1, Inr st1)"
    and rest: "for_each (\<lambda>sessions i st.
       js_forEach sessions
         (\<lambda>session j st.
            and_then (expr (get_prop session ''speakers'')) (\<lambda>speakers.
              js_forEach_opt speakers
                (\<lambda>speaker k st. and_then (expr (get_prop speaker ''id''))
                   (\<lambda>sid. ([], Inr (note_speaker_id sid st)))) st)) st) (Suc i) bs st1 = (w2, Inr st')"
    and w: "w = w1 @ w2"
    by blast
  from b obtain ss where ss: "b = JArr ss"
    by (cases b) (auto simp: js_forEach_def)
  with b sessions_loop[of 0 ss st w1 st1] have "w1 = [] \<and> st1 = foldl note_speaker st (bucket_speakers b)"
    by (simp add: js_forEach_def bucket_speakers_def elements_def)
  with Cons.IH[OF rest] w show ?case by simp
qed

lemma collect_speaker_ids_result:
  assumes "collect_speaker_ids sessionsVal = (w, Inr st)"
  shows "w = [] \<and> st = foldl note_speaker ([], [])
     (concat (map bucket_speakers (object_values (js_or sessionsVal (JObj [])))))"
  using assms unfolding collect_speaker_ids_def by (rule buckets_loop)

lemma set_has_iff: "set_has S x \<longleftrightarrow> primitive x \<and> x \<in> set S"
  by (cases x) (auto simp: set_has_def list_ex_iff primitive_def)

lemma count_list_snoc: "count_list (xs @ [x]) y = count_list xs y + (if x = y then 1 else 0)"
  by (induction xs) simp_all

lemma note_speaker_id_invariant:
  assumes "ids_invariant seen st"
  shows "ids_invariant (seen @ [x]) (note_speaker_id x st)"
proof -
  obtain ids dups where st: "st = (ids, dups)" by (cases st)
  from assms st have ids: "set ids = {y \<in> set seen. truthy y}" and d: "distinct dups"
    and dups: "set dups = {y. truthy y \<and> primitive y \<and> 2 \<le> count_list seen y}"
    by (simp_all add: ids_invariant_def)
  let ?D = "{y. truthy y \<and> primitive y \<and> 2 \<le> count_list (seen @ [x]) y}"
  show ?thesis
  proof (cases "truthy x")
    case False
    then have n: "note_speaker_id x st = st" by (simp add: note_speaker_id_def st)
    have "?D = set dups"
    proof (rule set_eqI)
      fix y show "y \<in> ?D \<longleftrightarrow> y \<in> set dups"
        using False by (cases "y = x") (simp_all add: dups count_list_snoc)
    qed
    moreover have "set ids = {y \<in> set (seen @ [x]). truthy y}"
      using ids False by auto
    ultimately show ?thesis using n d
      by (simp add: ids_invariant_def st)
  next
    case True
    show ?thesis
    proof (cases "set_has ids x")
      case has: True
      then have px: "primitive x" and xs: "x \<in> set seen" using ids by (auto simp: set_has_iff)
      from xs have "count_list seen x \<noteq> 0" by (simp add: count_list_0_iff)
      then have c1: "1 \<le> count_list seen x" by simp
      have n: "note_speaker_id x st = (ids, set_add dups x)"
        using True has by (simp add: note_speaker_id_def st)
      have sa: "set (set_add dups x) = insert x (set dups)" "distinct (set_add dups x)"
        using d px by (auto simp: set_add_def set_has_iff)
      have "?D = insert x (set dups)"
      proof (rule set_eqI)
        fix y show "y \<in> ?D \<longleftrightarrow> y \<in> insert x (set dups)"
          using True px c1 by (cases "y = x") (simp_all add: dups count_list_snoc)
      qed
      moreover have "set ids = {y \<in> set (seen @ [x]). truthy y}"
        using ids xs True by auto
      ultimately show ?thesis using n sa
        by (simp add: ids_invariant_def)
    next
      case nh: False
      have n: "note_speaker_id x st = (ids @ [x], dups)"
        using True nh by (simp add: note_speaker_id_def st)
      from nh ids True have c0: "primitive x \<Longrightarrow> count_list seen x = 0"
        by (auto simp: set_has_iff count_list_0_iff)
      have "?D = set dups"
      proof (rule set_eqI)
        fix y show "y \<in> ?D \<longleftrightarrow> y \<in> set dups"
          using c0 by (cases "y = x") (auto simp: dups count_list_snoc)
      qed
      moreover have "set (ids @ [x]) = {y \<in> set (seen @ [x]). truthy y}"
        using ids True by auto
      ultimately show ?thesis using n d
        by (simp add: ids_invariant_def)
    qed
  qed
qed

lemma fold_note_invariant:
  "ids_invariant seen st \<Longrightarrow>
   ids_invariant (seen @ map (\<lambda>sp. prop_of sp ''id'') sps) (foldl note_speaker st sps)"
proof (induction sps arbitrary: seen st)
  case Nil
  then show ?case by simp
next
  case (Cons sp sps)
  from note_speaker_id_invariant[OF Cons.prems, of "prop_of sp ''id''"]
  have "ids_invariant (seen @ [prop_of sp ''id'']) (note_speaker st sp)"
    by (simp add: note_speaker_def)
  from Cons.IH[OF this] show ?case by simp
qed

lemma collected_duplicates:
  assumes "collect_speaker_ids (prop_of d ''sessions'') = (w, Inr (ids, dups))"
  shows "w = [] \<and> distinct dups \<and>
         set dups = {x. truthy x \<and> primitive x \<and> 2 \<le> count_list (speaker_ids d) x}"
proof -
  from collect_speaker_ids_result[OF assms]
  have w: "w = []" and st: "(ids, dups) = foldl note_speaker ([], []) (all_speakers d)"
    by (simp_all add: all_speakers_def session_buckets_def)
  have "ids_invariant [] ([], [])" by (simp add: ids_invariant_def)
  from fold_note_invariant[OF this, of "all_speakers d"] st
  have "ids_invariant (speaker_ids d) (ids, dups)" by (simp add: speaker_ids_def)
  with w show ?thesis by (simp add: ids_invariant_def)
qed

lemma for_each_all:
  assumes "\<And>x i st. list_all P (fst (body x i st))"
  shows "list_all P (fst (for_each body i xs st))"
proof (induction xs arbitrary: i st)
  case Nil
  then show ?case by simp
next
  case (Cons x xs)
  obtain w1 r1 where b: "body x i st = (w1, r1)" by (cases "body x i st")
  with assms[of x i st] have w1: "list_all P w1" by simp
  show ?case
  proof (cases r1)
    case (Inl e)
    with b w1 show ?thesis by simp
  next
    case (Inr st1)
    obtain w2 r2 where rest: "for_each body (Suc i) xs st1 = (w2, r2)"
      by (cases "for_each body (Suc i) xs st1")
    with Cons.IH[of "Suc i" st1] have "list_all P w2" by simp
    with b Inr rest w1 show ?thesis by simp
  qed
qed

lemma js_forEach_all:
  assumes "\<And>x i st. list_all P (fst (body x i st))"
  shows "list_all P (fst (js_forEach v body st))"
  by (cases v) (simp_all add: js_forEach_def for_each_all[OF assms])

lemma js_forEach_opt_all:
  assumes "\<And>x i st. list_all P (fst (body x i st))"
  shows "list_all P (fst (js_forEach_opt v body st))"
  by (simp add: js_forEach_opt_def js_forEach_all[OF assms])

lemma and_then_all:
  assumes "list_all P (fst m)" and "\<And>st. list_all P (fst (k st))"
  shows "list_all P (fst (and_then m k))"
proof -
  obtain w1 r1 where m: "m = (w1, r1)" by (cases m)
  show ?thesis
  proof (cases r1)
    case (Inl e)
    with m assms(1) show ?thesis by (simp add: and_then_def)
  next
    case (Inr st)
    obtain w2 r2 where k: "k st = (w2, r2)" by (cases "k st")
    with assms(2)[of st] have "list_all P w2" by simp
    with m Inr k assms(1) show ?thesis by (simp add: and_then_def)
  qed
qed

lemma expr_all: "list_all P (fst (expr m))"
  by (simp add: expr_def)

lemmas all_intros = for_each_all js_forEach_all js_forEach_opt_all and_then_all expr_all

lemma check_orphans_field: "list_all (\<lambda>w. field w = ''sessions'') (fst (check_orphans S v))"
  unfolding check_orphans_def
  by (intro all_intros) (simp add: orphan_warning_def mk_warning_def)

lemma check_empty_categories_field:
  "list_all (\<lambda>w. field w = ''categories'') (fst (check_empty_categories S v))"
  unfolding check_empty_categories_def
  by (intro all_intros) (simp add: no_sessions_warning_def mk_warning_def split: sum.splits)

lemma check_time_slots_field:
  "list_all (\<lambda>w. field w = ''session.timeSlot'') (fst (check_time_slots v))"
  unfolding check_time_slots_def
  by (intro all_intros) (simp add: time_slot_warning_def mk_warning_def)

lemma check_speaker_images_field:
  "list_all (\<lambda>w. field w = ''speaker.image'') (fst (check_speaker_images v))"
  unfolding check_speaker_images_def
  by (intro all_intros) (simp add: placeholder_image_warning_def mk_warning_def)

lemma check_duplicate_speakers_field:
  "list_all (\<lambda>w. field w = ''speakers'') (fst (check_duplicate_speakers v))"
  unfolding check_duplicate_speakers_def collect_speaker_ids_def
  by (intro all_intros)
     (simp_all add: split_def list_all_iff duplicate_speaker_warning_def mk_warning_def)

lemma business_checks_parts:
  assumes "business_checks d = (w, Inr u)"
  shows "\<exists>S w1 w2 w3 w4 w5.
     check_orphans S (prop_of d ''sessions'') = (w1, Inr ()) \<and>
     check_empty_categories S (prop_of d ''sessions'') = (w2, Inr ()) \<and>
     check_duplicate_speakers (prop_of d ''sessions'') = (w3, Inr ()) \<and>
     check_time_slots (prop_of d ''sessions'') = (w4, Inr ()) \<and>
     check_speaker_images (prop_of d ''sessions'') = (w5, Inr ()) \<and>
     w = w1 @ w2 @ w3 @ w4 @ w5"
  using assms unfolding business_checks_def
  by (simp add: and_then_Inr expr_Inr get_prop_Inr try_bind_Inr) blast

lemma filter_all: "list_all P xs \<Longrightarrow> filter P xs = xs"
  by (simp add: list_all_iff)

lemma filter_none: "list_all (\<lambda>x. \<not> P x) xs \<Longrightarrow> filter P xs = []"
  by (simp add: list_all_iff filter_empty_conv)

lemma list_all_field_neq:
  "list_all (\<lambda>w. field w = f) ws \<Longrightarrow> f \<noteq> g \<Longrightarrow> list_all (\<lambda>w. \<not> field w = g) ws"
  by (simp add: list_all_iff)

lemma business_success:
  "errors (validateBusinessRules d) = [] \<longleftrightarrow> (\<exists>w. business_checks d = (w, Inr ()))"
  by (cases "business_checks d")
     (auto simp: validateBusinessRules_def Let_def mk_error_def split: sum.splits)

lemma duplicate_speaker_part:
  assumes "business_checks d = (w, Inr u)"
  shows "filter is_duplicate_speaker_warning w = fst (check_duplicate_speakers (prop_of d ''sessions'')) \<and>
         snd (check_duplicate_speakers (prop_of d ''sessions'')) = Inr ()"
proof -
  from business_checks_parts[OF assms] obtain S w1 w2 w3 w4 w5 where
    p: "check_orphans S (prop_of d ''sessions'') = (w1, Inr ())"
     "check_empty_categories S (prop_of d ''sessions'') = (w2, Inr ())"
     "check_duplicate_speakers (prop_of d ''sessions'') = (w3, Inr ())"
     "check_time_slots (prop_of d ''sessions'') = (w4, Inr ())"
     "check_speaker_images (prop_of d ''sessions'') = (w5, Inr ())"
    and w: "w = w1 @ w2 @ w3 @ w4 @ w5"
    by blast
  have "filter is_duplicate_speaker_warning w1 = []"
    using check_orphans_field[of S "prop_of d ''sessions''"] p(1)
    unfolding is_duplicate_speaker_warning_def
    by (intro filter_none list_all_field_neq[where f = "''sessions''"]) simp_all
  moreover have "filter is_duplicate_speaker_warning w2 = []"
    using check_empty_categories_field[of S "prop_of d ''sessions''"] p(2)
    unfolding is_duplicate_speaker_warning_def
    by (intro filter_none list_all_field_neq[where f = "''categories''"]) simp_all
  moreover have "filter is_duplicate_speaker_warning w3 = w3"
    using check_duplicate_speakers_field[of "prop_of d ''sessions''"] p(3)
    unfolding is_duplicate_speaker_warning_def
    by (intro filter_all) simp
  moreover have "filter is_duplicate_speaker_warning w4 = []"
    using check_time_slots_field[of "prop_of d ''sessions''"] p(4)
    unfolding is_duplicate_speaker_warning_def
    by (intro filter_none list_all_field_neq[where f = "''session.timeSlot''"]) simp_all
  moreover have "filter is_duplicate_speaker_warning w5 = []"
    using check_speaker_images_field[of "prop_of d ''sessions''"] p(5)
    unfolding is_duplicate_speaker_warning_def
    by (intro filter_none list_all_field_neq[where f = "''speaker.image''"]) simp_all
  ultimately show ?thesis using w p(3) by simp
qed

text \<open>
  C4. When the business rules run without an internal failure, the warnings about recurring
  speakers are one for each identifier (a present value, compared as a \<^verbatim>\<open>Set\<close> compares)
  that occurs at least twice among the speakers of all sessions, each exactly once,
  however often it occurs; an identifier that occurs once has none.
\<close>

theorem duplicate_speaker_warnings:
  assumes "errors (validateBusinessRules scheduleData) = []"
  shows "\<exists>D. filter is_duplicate_speaker_warning (warnings (validateBusinessRules scheduleData)) =
             map duplicate_speaker_warning D \<and>
             distinct D \<and>
             set D = {x. truthy x \<and> primitive x \<and> 2 \<le> count_list (speaker_ids scheduleData) x} \<and>
             length D = card {x. truthy x \<and> primitive x \<and> 2 \<le> count_list (speaker_ids scheduleData) x}"
proof -
  from assms obtain w where bc: "business_checks scheduleData = (w, Inr ())"
    by (auto simp: business_success)
  then have ws: "warnings (validateBusinessRules scheduleData) = w"
    by (simp add: validateBusinessRules_def Let_def)
  let ?sv = "prop_of scheduleData ''sessions''"
  from duplicate_speaker_part[OF bc]
  have f: "filter is_duplicate_speaker_warning w = fst (check_duplicate_speakers ?sv)"
    and ok: "snd (check_duplicate_speakers ?sv) = Inr ()" by blast+
  from ok obtain w0 ids dups where c: "collect_speaker_ids ?sv = (w0, Inr (ids, dups))"
    and d: "fst (check_duplicate_speakers ?sv) = w0 @ map duplicate_speaker_warning dups"
    unfolding check_duplicate_speakers_def
    by (cases "collect_speaker_ids ?sv") (auto simp: and_then_def split: sum.splits prod.splits)
  from collected_duplicates[OF c] d f ws
  have "filter is_duplicate_speaker_warning (warnings (validateBusinessRules scheduleData)) =
             map duplicate_speaker_warning dups \<and> distinct dups \<and>
        set dups = {x. truthy x \<and> primitive x \<and> 2 \<le> count_list (speaker_ids scheduleData) x}"
    by simp
  moreover from this have "length dups = card {x. truthy x \<and> primitive x \<and> 2 \<le> count_list (speaker_ids scheduleData) x}"
    by (metis distinct_card)
  ultimately show ?thesis by blast
qed

lemma snd_and_then:
  "snd (and_then m k) = (case snd m of Inl e \<Rightarrow> Inl e | Inr s \<Rightarrow> snd (k s))"
  by (cases m) (auto simp: and_then_def split: sum.splits prod.splits)

lemma snd_expr: "snd (expr m) = m"
  by (simp add: expr_def)

lemma recurring_orphans: "snd (check_orphans [] recurring_speakers_sessions) = Inr ()"
  by (simp add: check_orphans_def recurring_speakers_sessions_def object_keys_def js_or_def)

lemma recurring_empty: "snd (check_empty_categories [] recurring_speakers_sessions) = Inr ()"
  by (simp add: check_empty_categories_def)

lemma recurring_collect:
  "snd (collect_speaker_ids recurring_speakers_sessions) = Inr ([JStr ''x'', JStr ''y''], [JStr ''x''])"
  by (simp add: collect_speaker_ids_def recurring_speakers_sessions_def speaker_with_id_def
      object_values_def js_or_def js_forEach_def js_forEach_opt_def and_then_def expr_def
      get_prop_def note_speaker_id_def set_has_def set_add_def)

lemma recurring_time_slots: "snd (check_time_slots recurring_speakers_sessions) = Inr ()"
  by (simp add: check_time_slots_def recurring_speakers_sessions_def speaker_with_id_def
      object_values_def js_or_def js_forEach_def and_then_def expr_def get_prop_def)

lemma recurring_images: "snd (check_speaker_images recurring_speakers_sessions) = Inr ()"
  by (simp add: check_speaker_images_def recurring_speakers_sessions_def speaker_with_id_def
      object_values_def js_or_def js_forEach_def js_forEach_opt_def and_then_def expr_def
      get_prop_def)

lemma recurring_no_failure: "errors (validateBusinessRules recurring_speakers_document) = []"
proof -
  have "snd (business_checks recurring_speakers_document) = Inr ()"
    unfolding business_checks_def
    by (simp add: snd_and_then snd_expr recurring_speakers_document_def get_prop_def try_bind_def
        category_id_set_def new_set_def check_duplicate_speakers_def split_def
        recurring_orphans recurring_empty recurring_collect recurring_time_slots recurring_images)
  then show ?thesis
    by (cases "business_checks recurring_speakers_document")
       (simp add: validateBusinessRules_def Let_def)
qed

lemma recurring_ids:
  "speaker_ids recurring_speakers_document = [JStr ''x'', JStr ''y'', JStr ''x'', JStr ''x'']"
  by (simp add: speaker_ids_def all_speakers_def session_buckets_def bucket_speakers_def
      session_speakers_def elements_def recurring_speakers_document_def
      recurring_speakers_sessions_def speaker_with_id_def object_values_def js_or_def)

lemma distinct_singleton_set: "distinct D \<Longrightarrow> set D = {a} \<Longrightarrow> D = [a]"
  by (cases D; cases "tl D") auto

theorem duplicate_speaker_warnings_witness:
  "errors (validateBusinessRules recurring_speakers_document) = [] \<and>
   filter is_duplicate_speaker_warning (warnings (validateBusinessRules recurring_speakers_document)) =
     [duplicate_speaker_warning (JStr ''x'')]"
proof -
  from duplicate_speaker_warnings[OF recurring_no_failure] obtain D where
    f: "filter is_duplicate_speaker_warning (warnings (validateBusinessRules recurring_speakers_document)) =
        map duplicate_speaker_warning D"
    and d: "distinct D"
    and s: "set D = {x. truthy x \<and> primitive x \<and> 2 \<le> count_list (speaker_ids recurring_speakers_document) x}"
    by blast
  have "{x. truthy x \<and> primitive x \<and> 2 \<le> count_list (speaker_ids recurring_speakers_document) x}
        = {JStr ''x''}"
    unfolding recurring_ids by (auto simp: primitive_def)
  with s d have "D = [JStr ''x'']" by (intro distinct_singleton_set) simp_all
  with f recurring_no_failure show ?thesis by simp
qed


subsection \<open>Time slots\<close>

lemma star_rest:
  "set (map (\<lambda>k. drop k s) (rev [0..<Suc (length (takeWhile p s))])) =
   {t. \<exists>u. list_all p u \<and> s = u @ t}"
proof (intro set_eqI iffI)
  fix t assume "t \<in> set (map (\<lambda>k. drop k s) (rev [0..<Suc (length (takeWhile p s))]))"
  then have "t \<in> (\<lambda>k. drop k s) ` {k. k \<le> length (takeWhile p s)}"
    by auto
  then obtain k where k: "k \<le> length (takeWhile p s)" and t: "t = drop k s" by blast
  have "take k s = take k (takeWhile p s @ dropWhile p s)" by simp
  also have "\<dots> = take k (takeWhile p s)" using k by (simp del: takeWhile_dropWhile_id)
  finally have "take k s = take k (takeWhile p s)" .
  then have "list_all p (take k s)"
    by (metis in_set_takeD list_all_iff set_takeWhileD)
  with t show "t \<in> {t. \<exists>u. list_all p u \<and> s = u @ t}"
    by (auto intro: exI[of _ "take k s"])
next
  fix t assume "t \<in> {t. \<exists>u. list_all p u \<and> s = u @ t}"
  then obtain u where u: "list_all p u" and s: "s = u @ t" by blast
  then have "takeWhile p s = u @ takeWhile p t"
    by (simp add: list_all_iff)
  then have "length u \<le> length (takeWhile p s)" by simp
  then have "length u \<in> set (rev [0..<Suc (length (takeWhile p s))])"
    by (simp del: upt_Suc)
  moreover have "t = drop (length u) s" using s by simp
  ultimately show "t \<in> set (map (\<lambda>k. drop k s) (rev [0..<Suc (length (takeWhile p s))]))"
    unfolding set_map by (rule image_eqI[rotated])
qed

lemma rx_rest_lang: "set (rx_rest r s) = {t. \<exists>u \<in> rx_lang r. s = u @ t}"
proof (induction r arbitrary: s)
  case (Cls p)
  show ?case by (cases s) auto
next
  case (Lit a)
  show ?case by (cases s) auto
next
  case (Seq a b)
  show ?case
    by (auto simp: Seq.IH) metis+
next
  case (Opt a)
  show ?case by (auto simp: Opt.IH)
next
  case (StarCls p)
  show ?case unfolding rx_rest.simps star_rest by auto
qed

lemma rx_test_lang: "rx_test r s \<longleftrightarrow> s \<in> rx_lang r"
  by (auto simp: rx_test_def rx_rest_lang)

lemma length_1_conv: "length xs = Suc 0 \<longleftrightarrow> (\<exists>a. xs = [a])"
  by (cases xs) auto

lemma length_2_conv: "length xs = 2 \<longleftrightarrow> (\<exists>a b. xs = [a, b])"
  by (cases xs; cases "tl xs") auto

lemma lang_Cls_Seq:
  "s \<in> rx_lang (Seq (Cls p) b) \<longleftrightarrow> (\<exists>c t. s = c # t \<and> p c \<and> t \<in> rx_lang b)"
proof
  assume "s \<in> rx_lang (Seq (Cls p) b)"
  then show "\<exists>c t. s = c # t \<and> p c \<and> t \<in> rx_lang b" by auto
next
  assume "\<exists>c t. s = c # t \<and> p c \<and> t \<in> rx_lang b"
  then obtain c t where "s = [c] @ t" "p c" "t \<in> rx_lang b" by auto
  then show "s \<in> rx_lang (Seq (Cls p) b)" unfolding rx_lang.simps by blast
qed

lemma lang_Opt_Cls: "s \<in> rx_lang (Opt (Cls p)) \<longleftrightarrow> s = [] \<or> (\<exists>c. s = [c] \<and> p c)"
  by auto

lemma lang_Cls: "s \<in> rx_lang (Cls p) \<longleftrightarrow> (\<exists>c. s = [c] \<and> p c)"
  by auto

lemma lang_hour: "h \<in> rx_lang (Seq (Cls is_digit) (Opt (Cls is_digit))) \<longleftrightarrow> hour_digits h"
  unfolding lang_Cls_Seq lang_Opt_Cls hour_digits_def
  by (cases h; cases "tl h"; cases "tl (tl h)") auto

lemma lang_minute: "m \<in> rx_lang (Seq (Cls is_digit) (Cls is_digit)) \<longleftrightarrow> minute_digits m"
  unfolding lang_Cls_Seq lang_Cls minute_digits_def
  by (cases m; cases "tl m"; cases "tl (tl m)") auto

lemma lang_Seq: "s \<in> rx_lang (Seq a b) \<longleftrightarrow> (\<exists>u v. s = u @ v \<and> u \<in> rx_lang a \<and> v \<in> rx_lang b)"
  by auto

lemma lang_Lit: "s \<in> rx_lang (Lit c) \<longleftrightarrow> s = [c]"
  by simp

lemma lang_Star: "s \<in> rx_lang (StarCls p) \<longleftrightarrow> list_all p s"
  by simp

lemma timeRangePattern_shape: "rx_test timeRangePattern s \<longleftrightarrow> time_range_shape s"
proof -
  have "s \<in> rx_lang timeRangePattern \<longleftrightarrow>
      (\<exists>h1 r1. s = h1 @ r1 \<and> hour_digits h1 \<and>
      (\<exists>c1 r2. r1 = c1 @ r2 \<and> c1 = '':'' \<and>
      (\<exists>m1 r3. r2 = m1 @ r3 \<and> minute_digits m1 \<and>
      (\<exists>w1 r4. r3 = w1 @ r4 \<and> list_all is_space w1 \<and>
      (\<exists>c2 r5. r4 = c2 @ r5 \<and> c2 = ''-'' \<and>
      (\<exists>w2 r6. r5 = w2 @ r6 \<and> list_all is_space w2 \<and>
      (\<exists>h2 r7. r6 = h2 @ r7 \<and> hour_digits h2 \<and>
      (\<exists>c3 m2. r7 = c3 @ m2 \<and> c3 = '':'' \<and> minute_digits m2))))))))"
    unfolding timeRangePattern_def
    by (simp only: lang_Seq[of _ "Seq (Cls is_digit) (Opt (Cls is_digit))"]
        lang_Seq[of _ "Seq (Cls is_digit) (Cls is_digit)"]
        lang_Seq[of _ "Lit _"] lang_Seq[of _ "StarCls _"]
        lang_hour lang_minute lang_Lit lang_Star)
  also have "\<dots> \<longleftrightarrow> time_range_shape s"
  proof
    assume "\<exists>h1 r1. s = h1 @ r1 \<and> hour_digits h1 \<and>
      (\<exists>c1 r2. r1 = c1 @ r2 \<and> c1 = '':'' \<and>
      (\<exists>m1 r3. r2 = m1 @ r3 \<and> minute_digits m1 \<and>
      (\<exists>w1 r4. r3 = w1 @ r4 \<and> list_all is_space w1 \<and>
      (\<exists>c2 r5. r4 = c2 @ r5 \<and> c2 = ''-'' \<and>
      (\<exists>w2 r6. r5 = w2 @ r6 \<and> list_all is_space w2 \<and>
      (\<exists>h2 r7. r6 = h2 @ r7 \<and> hour_digits h2 \<and>
      (\<exists>c3 m2. r7 = c3 @ m2 \<and> c3 = '':'' \<and> minute_digits m2)))))))"
    then obtain h1 r1 r2 m1 r3 w1 r4 r5 w2 r6 h2 r7 m2 where
      "s = h1 @ r1" "hour_digits h1" "r1 = '':'' @ r2" "r2 = m1 @ r3" "minute_digits m1"
      "r3 = w1 @ r4" "list_all is_space w1" "r4 = ''-'' @ r5" "r5 = w2 @ r6" "list_all is_space w2"
      "r6 = h2 @ r7" "hour_digits h2" "r7 = '':'' @ m2" "minute_digits m2"
      by blast
    then have "s = h1 @ '':'' @ m1 @ w1 @ ''-'' @ w2 @ h2 @ '':'' @ m2 \<and>
        hour_digits h1 \<and> minute_digits m1 \<and> list_all is_space w1 \<and> list_all is_space w2 \<and>
        hour_digits h2 \<and> minute_digits m2"
      by simp
    then show "time_range_shape s" unfolding time_range_shape_def by blast
  next
    assume "time_range_shape s"
    then obtain h1 m1 w1 w2 h2 m2 where
      s: "s = h1 @ '':'' @ m1 @ w1 @ ''-'' @ w2 @ h2 @ '':'' @ m2"
      and p: "hour_digits h1" "minute_digits m1" "list_all is_space w1" "list_all is_space w2"
        "hour_digits h2" "minute_digits m2"
      unfolding time_range_shape_def by blast
    show "\<exists>h1 r1. s = h1 @ r1 \<and> hour_digits h1 \<and>
      (\<exists>c1 r2. r1 = c1 @ r2 \<and> c1 = '':'' \<and>
      (\<exists>m1 r3. r2 = m1 @ r3 \<and> minute_digits m1 \<and>
      (\<exists>w1 r4. r3 = w1 @ r4 \<and> list_all is_space w1 \<and>
      (\<exists>c2 r5. r4 = c2 @ r5 \<and> c2 = ''-'' \<and>
      (\<exists>w2 r6. r5 = w2 @ r6 \<and> list_all is_space w2 \<and>
      (\<exists>h2 r7. r6 = h2 @ r7 \<and> hour_digits h2 \<and>
      (\<exists>c3 m2. r7 = c3 @ m2 \<and> c3 = '':'' \<and> minute_digits m2)))))))"
      apply (rule exI[of _ h1], rule exI[of _ "'':'' @ m1 @ w1 @ ''-'' @ w2 @ h2 @ '':'' @ m2"])
      apply (intro conjI s p)
      apply (rule exI[of _ "'':''"], rule exI[of _ "m1 @ w1 @ ''-'' @ w2 @ h2 @ '':'' @ m2"])
      apply (intro conjI refl)
      apply (rule exI[of _ m1], rule exI[of _ "w1 @ ''-'' @ w2 @ h2 @ '':'' @ m2"])
      apply (intro conjI refl p)
      apply (rule exI[of _ w1], rule exI[of _ "''-'' @ w2 @ h2 @ '':'' @ m2"])
      apply (intro conjI refl p)
      apply (rule exI[of _ "''-''"], rule exI[of _ "w2 @ h2 @ '':'' @ m2"])
      apply (intro conjI refl)
      apply (rule exI[of _ w2], rule exI[of _ "h2 @ '':'' @ m2"])
      apply (intro conjI refl p)
      apply (rule exI[of _ h2], rule exI[of _ "'':'' @ m2"])
      apply (intro conjI refl p)
      apply (rule exI[of _ "'':''"], rule exI[of _ m2])
      apply (intro conjI refl p)
      done
  qed
  finally show ?thesis by (simp add: rx_test_lang)
qed

lemma str_includes_iff: "str_includes s sub \<longleftrightarrow> (\<exists>pre post. s = pre @ sub @ post)"
proof (induction s)
  case Nil
  show ?case by auto
next
  case (Cons c s)
  show ?case
  proof
    assume "str_includes (c # s) sub"
    then consider "prefix sub (c # s)" | "str_includes s sub" by auto
    then show "\<exists>pre post. c # s = pre @ sub @ post"
    proof cases
      case 1
      then obtain post where "c # s = sub @ post" by (auto simp: prefix_def)
      then have "c # s = [] @ sub @ post" by simp
      then show ?thesis by blast
    next
      case 2
      with Cons.IH obtain pre post where "s = pre @ sub @ post" by blast
      then have "c # s = (c # pre) @ sub @ post" by simp
      then show ?thesis by blast
    qed
  next
    assume "\<exists>pre post. c # s = pre @ sub @ post"
    then obtain pre post where e: "c # s = pre @ sub @ post" by blast
    show "str_includes (c # s) sub"
    proof (cases pre)
      case Nil
      with e have "prefix sub (c # s)" by (simp add: prefix_def)
      then show ?thesis by simp
    next
      case (Cons a pre')
      with e have "s = pre' @ sub @ post" by simp
      with Cons.IH have "str_includes s sub" by blast
      then show ?thesis by simp
    qed
  qed
qed

lemma contains_ignoring_case_iff:
  "contains_ignoring_case s sub \<longleftrightarrow> str_includes (toLowerCase s) sub"
proof
  assume "contains_ignoring_case s sub"
  then obtain pre mid post where "s = pre @ mid @ post" "toLowerCase mid = sub"
    by (auto simp: contains_ignoring_case_def)
  then have "toLowerCase s = toLowerCase pre @ sub @ toLowerCase post"
    by (simp add: toLowerCase_def)
  then show "str_includes (toLowerCase s) sub" unfolding str_includes_iff by blast
next
  assume "str_includes (toLowerCase s) sub"
  then obtain a c where e: "map to_lower_char s = a @ sub @ c"
    unfolding str_includes_iff toLowerCase_def by blast
  from e[unfolded map_eq_append_conv] obtain pre rest where
    s1: "s = pre @ rest" and e2: "map to_lower_char rest = sub @ c"
    by metis
  from e2[unfolded map_eq_append_conv] obtain mid post where
    "rest = mid @ post" and "map to_lower_char mid = sub"
    by metis
  with s1 show "contains_ignoring_case s sub"
    unfolding contains_ignoring_case_def toLowerCase_def by blast
qed

lemma str_includes_rev: "str_includes (rev s) (rev sub) = str_includes s sub"
proof -
  have "(\<exists>pre post. rev s = pre @ rev sub @ post) \<longleftrightarrow> (\<exists>pre post. s = pre @ sub @ post)"
  proof
    assume "\<exists>pre post. rev s = pre @ rev sub @ post"
    then obtain pre post where "rev s = pre @ rev sub @ post" by blast
    then have "rev (rev s) = rev (pre @ rev sub @ post)" by simp
    then have "s = rev post @ sub @ rev pre" by simp
    then show "\<exists>pre post. s = pre @ sub @ post" by blast
  next
    assume "\<exists>pre post. s = pre @ sub @ post"
    then obtain pre post where "s = pre @ sub @ post" by blast
    then have "rev s = rev post @ rev sub @ rev pre" by simp
    then show "\<exists>pre post. rev s = pre @ rev sub @ post" by blast
  qed
  then show ?thesis by (simp add: str_includes_iff)
qed

lemma is_space_to_lower [simp]: "is_space (to_lower_char c) = is_space c"
proof (cases "65 \<le> (of_char c :: nat) \<and> (of_char c :: nat) \<le> 90")
  case False
  then show ?thesis by (auto simp: to_lower_char_def)
next
  case True
  then have "\<not> is_space c" by (auto simp: is_space_def)
  moreover have "(of_char (to_lower_char c) :: nat) = of_char c + 32"
    using True by (simp add: to_lower_char_def)
  then have "97 \<le> (of_char (to_lower_char c) :: nat)" using True by simp
  then have "\<not> is_space (to_lower_char c)" by (auto simp: is_space_def)
  ultimately show ?thesis by simp
qed

lemma str_includes_dropWhile_space:
  assumes "sub \<noteq> []" "\<not> is_space (hd sub)"
  shows "str_includes (toLowerCase (dropWhile is_space s)) sub = str_includes (toLowerCase s) sub"
proof (induction s)
  case Nil
  show ?case by simp
next
  case (Cons c s)
  show ?case
  proof (cases "is_space c")
    case False
    then show ?thesis by simp
  next
    case True
    from assms obtain h t where sub: "sub = h # t" and h: "\<not> is_space h" by (cases sub) auto
    from True h have "h \<noteq> to_lower_char c" by auto
    then have "\<not> prefix sub (toLowerCase (c # s))" by (simp add: sub toLowerCase_def)
    with True Cons.IH show ?thesis by (simp add: toLowerCase_def)
  qed
qed

lemma toLowerCase_rev: "toLowerCase (rev s) = rev (toLowerCase s)"
  by (simp add: toLowerCase_def rev_map)

lemma str_includes_trim:
  assumes "sub \<noteq> []" "\<not> is_space (hd sub)" "\<not> is_space (last sub)"
  shows "str_includes (toLowerCase (trim s)) sub = str_includes (toLowerCase s) sub"
proof -
  let ?s' = "dropWhile is_space s"
  have r: "rev sub \<noteq> []" "\<not> is_space (hd (rev sub))" using assms by (simp_all add: hd_rev)
  have "str_includes (toLowerCase (trim s)) sub =
        str_includes (rev (toLowerCase (dropWhile is_space (rev ?s')))) (rev (rev sub))"
    by (simp add: trim_def toLowerCase_rev)
  also have "\<dots> = str_includes (toLowerCase (dropWhile is_space (rev ?s'))) (rev sub)"
    by (rule str_includes_rev)
  also have "\<dots> = str_includes (toLowerCase (rev ?s')) (rev sub)"
    using r by (rule str_includes_dropWhile_space)
  also have "\<dots> = str_includes (toLowerCase ?s') sub"
    by (simp add: toLowerCase_rev str_includes_rev)
  also have "\<dots> = str_includes (toLowerCase s) sub"
    using assms(1,2) by (rule str_includes_dropWhile_space)
  finally show ?thesis .
qed

lemma placeholder_trim:
  "(str_includes (toLowerCase (trim s)) ''tbd'' \<or> str_includes (toLowerCase (trim s)) ''all day'' \<or>
    str_includes (toLowerCase (trim s)) all_day_zh) = is_placeholder s"
proof -
  have 1: "str_includes (toLowerCase (trim s)) ''tbd'' = str_includes (toLowerCase s) ''tbd''"
    by (rule str_includes_trim) (simp_all add: is_space_def)
  have 2: "str_includes (toLowerCase (trim s)) ''all day'' = str_includes (toLowerCase s) ''all day''"
    by (rule str_includes_trim) (simp_all add: is_space_def)
  have 3: "str_includes (toLowerCase (trim s)) all_day_zh = str_includes (toLowerCase s) all_day_zh"
    by (rule str_includes_trim) (simp_all add: is_space_def all_day_zh_def)
  show ?thesis
    by (simp only: 1 2 3 is_placeholder_def contains_ignoring_case_iff)
qed

lemma isValidTimeSlot_string:
  "isValidTimeSlot (JStr s) \<longleftrightarrow> s \<noteq> [] \<and> (is_placeholder s \<or> time_range_shape (trim s))"
  unfolding isValidTimeSlot_def Let_def
  by (simp add: placeholder_trim timeRangePattern_shape)

lemma warns_iff_unusual: "(truthy v \<and> \<not> isValidTimeSlot v) \<longleftrightarrow> unusual_time_slot v"
proof (cases v)
  case (JStr s)
  then show ?thesis by (auto simp: isValidTimeSlot_string unusual_time_slot_def)
qed (simp_all add: isValidTimeSlot_def unusual_time_slot_def)

lemma time_slot_sessions_loop:
  "for_each (\<lambda>session index st.
       and_then (expr (get_prop session ''timeSlot'')) (\<lambda>timeSlot.
         (if truthy timeSlot \<and> \<not> isValidTimeSlot timeSlot
          then [time_slot_warning timeSlot index] else [], Inr st))) i ss st = (w, Inr st') \<Longrightarrow>
   w = concat (map (\<lambda>(index, session).
                    if unusual_time_slot (prop_of session ''timeSlot'')
                    then [time_slot_warning (prop_of session ''timeSlot'') index] else [])
               (enumerate i ss))"
proof (induction ss arbitrary: i st w)
  case Nil
  then show ?case by simp
next
  case (Cons s ss)
  from Cons.prems[unfolded for_each_Cons_Inr] obtain w1 st1 w2 where
    b: "and_then (expr (get_prop s ''timeSlot'')) (\<lambda>timeSlot.
         (if truthy timeSlot \<and> \<not> isValidTimeSlot timeSlot
          then [time_slot_warning timeSlot i] else [], Inr st)) = (w1, Inr st1)"
    and rest: "for_each (\<lambda>session index st.
       and_then (expr (get_prop session ''timeSlot'')) (\<lambda>timeSlot.
         (if truthy timeSlot \<and> \<not> isValidTimeSlot timeSlot
          then [time_slot_warning timeSlot index] else [], Inr st))) (Suc i) ss st1 = (w2, Inr st')"
    and w: "w = w1 @ w2"
    by blast
  from b have "w1 = (if unusual_time_slot (prop_of s ''timeSlot'')
                    then [time_slot_warning (prop_of s ''timeSlot'') i] else [])"
    by (auto simp: and_then_Inr expr_Inr get_prop_Inr warns_iff_unusual[symmetric])
  with Cons.IH[OF rest] w show ?case by simp
qed

lemma time_slot_buckets_loop:
  "for_each (\<lambda>sessions i st.
       js_forEach sessions
         (\<lambda>session index st.
            and_then (expr (get_prop session ''timeSlot'')) (\<lambda>timeSlot.
              (if truthy timeSlot \<and> \<not> isValidTimeSlot timeSlot
               then [time_slot_warning timeSlot index] else [], Inr st))) st) i bs st = (w, Inr st') \<Longrightarrow>
   w = concat (map bucket_time_slot_warnings bs)"
proof (induction bs arbitrary: i st w)
  case Nil
  then show ?case by simp
next
  case (Cons b bs)
  from Cons.prems[unfolded for_each_Cons_Inr] obtain w1 st1 w2 where
    b: "js_forEach b
         (\<lambda>session index st.
            and_then (expr (get_prop session ''timeSlot'')) (\<lambda>timeSlot.
              (if truthy timeSlot \<and> \<not> isValidTimeSlot timeSlot
               then [time_slot_warning timeSlot index] else [], Inr st))) st = (w1, Inr st1)"
    and rest: "for_each (\<lambda>sessions i st.
       js_forEach sessions
         (\<lambda>session index st.
            and_then (expr (get_prop session ''timeSlot'')) (\<lambda>timeSlot.
              (if truthy timeSlot \<and> \<not> isValidTimeSlot timeSlot
               then [time_slot_warning timeSlot index] else [], Inr st))) st) (Suc i) bs st1 = (w2, Inr st')"
    and w: "w = w1 @ w2"
    by blast
  from b obtain ss where ss: "b = JArr ss"
    by (cases b) (auto simp: js_forEach_def)
  with b time_slot_sessions_loop[of 0 ss st w1 st1] have "w1 = bucket_time_slot_warnings b"
    by (simp add: js_forEach_def bucket_time_slot_warnings_def elements_def)
  with Cons.IH[OF rest] w show ?case by simp
qed

lemma check_time_slots_result:
  assumes "check_time_slots (prop_of d ''sessions'') = (w, Inr u)"
  shows "w = concat (map bucket_time_slot_warnings (session_buckets d))"
  using assms unfolding check_time_slots_def session_buckets_def by (rule time_slot_buckets_loop)

lemma time_slot_part:
  assumes "business_checks d = (w, Inr u)"
  shows "filter is_time_slot_warning w = concat (map bucket_time_slot_warnings (session_buckets d))"
proof -
  from business_checks_parts[OF assms] obtain S w1 w2 w3 w4 w5 where
    p: "check_orphans S (prop_of d ''sessions'') = (w1, Inr ())"
     "check_empty_categories S (prop_of d ''sessions'') = (w2, Inr ())"
     "check_duplicate_speakers (prop_of d ''sessions'') = (w3, Inr ())"
     "check_time_slots (prop_of d ''sessions'') = (w4, Inr ())"
     "check_speaker_images (prop_of d ''sessions'') = (w5, Inr ())"
    and w: "w = w1 @ w2 @ w3 @ w4 @ w5"
    by blast
  have "filter is_time_slot_warning w1 = []"
    using check_orphans_field[of S "prop_of d ''sessions''"] p(1)
    unfolding is_time_slot_warning_def
    by (intro filter_none list_all_field_neq[where f = "''sessions''"]) simp_all
  moreover have "filter is_time_slot_warning w2 = []"
    using check_empty_categories_field[of S "prop_of d ''sessions''"] p(2)
    unfolding is_time_slot_warning_def
    by (intro filter_none list_all_field_neq[where f = "''categories''"]) simp_all
  moreover have "filter is_time_slot_warning w3 = []"
    using check_duplicate_speakers_field[of "prop_of d ''sessions''"] p(3)
    unfolding is_time_slot_warning_def
    by (intro filter_none list_all_field_neq[where f = "''speakers''"]) simp_all
  moreover have "filter is_time_slot_warning w4 = w4"
    using check_time_slots_field[of "prop_of d ''sessions''"] p(4)
    unfolding is_time_slot_warning_def
    by (intro filter_all) simp
  moreover have "filter is_time_slot_warning w5 = []"
    using check_speaker_images_field[of "prop_of d ''sessions''"] p(5)
    unfolding is_time_slot_warning_def
    by (intro filter_none list_all_field_neq[where f = "''speaker.image''"]) simp_all
  ultimately show ?thesis using w check_time_slots_result[OF p(4)] by simp
qed

lemma valid_examples:
  "isValidTimeSlot (JStr ''10:15 - 10:50'')" "isValidTimeSlot (JStr ''TBD'')"
  "isValidTimeSlot (JStr ''All day'')" "isValidTimeSlot (JStr all_day_zh)"
  "isValidTimeSlot (JStr ''10:15-10:50'')" "\<not> isValidTimeSlot (JStr ''noon'')"
  by code_simp+

lemma to_str_42: "to_str (JNum 42) = ''42''"
  by code_simp

lemma str_of_nat_small: "str_of_nat 0 = ''0''" "str_of_nat 1 = ''1''" "str_of_nat 2 = ''2''"
  by code_simp+

lemma number_not_valid: "\<not> isValidTimeSlot (JNum n)"
  by (simp add: isValidTimeSlot_def)

lemma unusual_examples:
  "\<not> unusual_time_slot (JStr ''10:15 - 10:50'')" "\<not> unusual_time_slot (JStr ''TBD'')"
  "\<not> unusual_time_slot (JStr ''All day'')" "\<not> unusual_time_slot (JStr all_day_zh)"
  "unusual_time_slot (JStr ''noon'')" "unusual_time_slot (JNum 42)"
  using valid_examples number_not_valid[of 42]
  by (simp_all add: warns_iff_unusual[symmetric])

lemma numeric_no_failure: "errors (validateBusinessRules numeric_time_slot_document) = []"
proof -
  have "snd (business_checks numeric_time_slot_document) = Inr ()"
    unfolding business_checks_def
    by (simp add: snd_and_then snd_expr numeric_time_slot_document_def get_prop_def try_bind_def
        category_id_set_def new_set_def check_duplicate_speakers_def split_def
        check_orphans_def check_empty_categories_def collect_speaker_ids_def check_time_slots_def
        check_speaker_images_def object_keys_def object_values_def js_or_def js_forEach_def
        js_forEach_opt_def and_then_def expr_def)
  then show ?thesis
    by (cases "business_checks numeric_time_slot_document")
       (simp add: validateBusinessRules_def Let_def)
qed

lemma mixed_no_failure: "errors (validateBusinessRules mixed_time_slots_document) = []"
proof -
  have "snd (business_checks mixed_time_slots_document) = Inr ()"
    unfolding business_checks_def
    by (simp add: snd_and_then snd_expr mixed_time_slots_document_def get_prop_def try_bind_def
        category_id_set_def new_set_def check_duplicate_speakers_def split_def
        check_orphans_def check_empty_categories_def collect_speaker_ids_def check_time_slots_def
        check_speaker_images_def object_keys_def object_values_def js_or_def js_forEach_def
        js_forEach_opt_def and_then_def expr_def)
  then show ?thesis
    by (cases "business_checks mixed_time_slots_document")
       (simp add: validateBusinessRules_def Let_def)
qed

lemma time_slot_warnings_of_run:
  assumes "errors (validateBusinessRules d) = []"
  shows "filter is_time_slot_warning (warnings (validateBusinessRules d)) =
         concat (map bucket_time_slot_warnings (session_buckets d))"
proof -
  from assms obtain w where bc: "business_checks d = (w, Inr ())"
    by (auto simp: business_success)
  then have "warnings (validateBusinessRules d) = w"
    by (simp add: validateBusinessRules_def Let_def)
  with time_slot_part[OF bc] show ?thesis by simp
qed

lemma str_of_int_42: "str_of_int 42 = ''42''"
  by code_simp




subsection \<open>Safe processing\<close>

lemma safe_process_returns: "\<exists>r. snd (safeProcessBilingualSchedule d l) = Inr r"
  by (cases "safe_process_body d"; cases "snd (safe_process_body d)")
     (auto simp: safeProcessBilingualSchedule_def)

lemma safe_process_failure:
  assumes "snd (safe_process_body d) = Inl e"
  shows "safeProcessBilingualSchedule d l =
     (fst (safe_process_body d) @ [(''Critical error processing schedule data: '' @ error_str e, None)],
      Inr d)"
  using assms by (cases "safe_process_body d") (auto simp: safeProcessBilingualSchedule_def)

lemma and_then_Inl:
  "snd (and_then m k) = Inl e \<longleftrightarrow>
     snd m = Inl e \<or> (\<exists>s. snd m = Inr s \<and> snd (k s) = Inl e)"
  by (cases m; cases "snd m") (auto simp: and_then_def split: prod.splits)

lemma fst_and_then:
  "fst (and_then m k) = (case snd m of Inl e \<Rightarrow> fst m | Inr s \<Rightarrow> fst m @ fst (k s))"
  by (cases m; cases "snd m") (auto simp: and_then_def split: prod.splits)

lemma nullish_body:
  assumes "nullish d"
  shows "safe_process_body d = ([(''Schedule data must be a valid object'', None)], Inl TypeError)"
  using assms
  by (cases d)
     (simp_all add: safe_process_body_def validateBilingualScheduleData_def and_then_def expr_def
       get_prop_def try_bind_def forward_def mk_error_def)

lemma nullish_document:
  assumes "nullish d"
  shows "safeProcessBilingualSchedule d l =
     ([(''Schedule data must be a valid object'', None),
       (''Critical error processing schedule data: TypeError'', None)], Inr d)"
  using nullish_body[OF assms]
  by (simp add: safeProcessBilingualSchedule_def error_str_def)

lemma days_not_array_body:
  assumes "truthy (prop_of d ''days'')" "\<not> isArray (prop_of d ''days'')"
  shows "\<exists>e. snd (safe_process_body d) = Inl e"
proof (cases "validateBilingualScheduleData d")
  case (Inl e)
  then show ?thesis by (simp add: safe_process_body_def and_then_def expr_def)
next
  case (Inr v)
  have "try_bind (get_prop d ''days'') array_or_empty = Inl TypeError"
    using assms
    by (cases "prop_of d ''days''")
       (auto simp: get_prop_def try_bind_def array_or_empty_def js_or_def)
  with Inr show ?thesis
    by (simp add: safe_process_body_def snd_and_then snd_expr)
qed

lemma days_not_array_document:
  assumes "truthy (prop_of d ''days'')" "\<not> isArray (prop_of d ''days'')"
  shows "snd (safeProcessBilingualSchedule d l) = Inr d"
proof -
  from days_not_array_body[OF assms] obtain e where "snd (safe_process_body d) = Inl e" ..
  from safe_process_failure[OF this] show ?thesis by simp
qed

lemma of_char_digit_char: "d < 10 \<Longrightarrow> (of_char (digit_char d) :: nat) = 48 + d"
  by (simp add: digit_char_def)

lemma is_digit_digit_char: "d < 10 \<Longrightarrow> is_digit (digit_char d)"
  by (simp add: is_digit_def of_char_digit_char)

lemma str_of_nat_last: "is_digit (last (str_of_nat n))"
  by (subst str_of_nat.simps) (simp add: is_digit_digit_char)

lemma index_of_key_digit:
  assumes "index_of_key n k = Some i"
  shows "is_digit (last k)"
proof -
  from assms have "str_of_nat i = k"
    unfolding index_of_key_def by (metis (mono_tags, lifting) find_Some_iff)
  with str_of_nat_last[of i] show ?thesis by simp
qed

lemma index_of_key_None: "\<not> is_digit (last k) \<Longrightarrow> index_of_key n k = None"
  using index_of_key_digit[of n k] by (cases "index_of_key n k") auto

lemma object_of_prop:
  assumes "prop_of v k \<noteq> JUndefined" "\<not> is_digit (last k)" "k \<noteq> ''length''"
  shows "\<exists>kvs. v = JObj kvs \<and> map_of kvs k = Some (prop_of v k)"
  using assms by (cases v) (auto simp: index_of_key_None split: option.splits)

lemma field_names_not_indices:
  "\<not> is_digit (last ''id'')" "\<not> is_digit (last ''en'')" "\<not> is_digit (last ''zh'')"
  "\<not> is_digit (last ''date'')" "\<not> is_digit (last ''timeSlot'')" "\<not> is_digit (last ''days'')"
  "\<not> is_digit (last ''name'')" "\<not> is_digit (last ''roleOrg'')" "\<not> is_digit (last ''url'')"
  by (simp_all add: is_digit_def)

lemma dropWhile_last:
  "dropWhile P xs \<noteq> [] \<Longrightarrow> last (dropWhile P xs) = last xs"
  by (induction xs) (auto split: if_splits)

lemma trim_trim: "trim (trim s) = trim s"
proof -
  let ?a = "dropWhile is_space s"
  let ?b = "dropWhile is_space (rev ?a)"
  have b: "?b = [] \<or> \<not> is_space (hd ?b)"
    by (metis hd_dropWhile)
  have "?b \<noteq> [] \<Longrightarrow> \<not> is_space (last ?b)"
  proof -
    assume ne: "?b \<noteq> []"
    then have "last ?b = last (rev ?a)" by (rule dropWhile_last)
    moreover from ne have a: "?a \<noteq> []" by (cases "dropWhile is_space s = []") simp_all
    ultimately have "last ?b = hd ?a" by (simp add: last_rev)
    with a show ?thesis by (metis hd_dropWhile)
  qed
  then have 1: "dropWhile is_space (rev ?b) = rev ?b"
    by (cases "?b = []") (simp_all add: dropWhile_eq_self_iff hd_rev)
  from b have 2: "dropWhile is_space ?b = ?b"
    by (auto simp: dropWhile_eq_self_iff)
  have "trim (rev ?b) = rev (dropWhile is_space (rev (dropWhile is_space (rev ?b))))"
    by (simp add: trim_def)
  also have "\<dots> = rev ?b" by (simp only: 1 rev_rev_ident 2)
  finally show ?thesis by (simp add: trim_def)
qed

lemma text_clean_iff: "clean (validateBilingualText t f True) \<longleftrightarrow> acceptable_text t"
  by (cases t)
     (auto simp: validateBilingualText_def clean_def both_languages_def acceptable_text_def Let_def
       mk_error_def mk_warning_def)

lemma dropWhile_keeps: "c \<in> set s \<Longrightarrow> \<not> P c \<Longrightarrow> c \<in> set (dropWhile P s)"
  by (induction s) auto

lemma nonspace_trim: "c \<in> set s \<Longrightarrow> \<not> is_space c \<Longrightarrow> trim s \<noteq> []"
proof -
  assume c: "c \<in> set s" "\<not> is_space c"
  then have "c \<in> set (rev (dropWhile is_space s))" by (simp add: dropWhile_keeps)
  from this c(2) have "c \<in> set (dropWhile is_space (rev (dropWhile is_space s)))"
    by (rule dropWhile_keeps)
  then have "dropWhile is_space (rev (dropWhile is_space s)) \<noteq> []"
    by (metis empty_iff empty_set)
  then show ?thesis by (simp only: trim_def rev_is_Nil_conv not_False_eq_True)
qed

lemma digit_not_space: "is_digit c \<Longrightarrow> \<not> is_space c"
  by (auto simp: is_digit_def is_space_def)

lemma last_not_space_trim: "s \<noteq> [] \<Longrightarrow> \<not> is_space (last s) \<Longrightarrow> has_language (JStr s)"
  using nonspace_trim[of "last s" s] by simp

lemma str_of_nat_not_empty: "str_of_nat n \<noteq> []"
  by (subst str_of_nat.simps) simp

lemma str_of_int_not_blank: "has_language (JStr (str_of_int i))"
proof (rule last_not_space_trim)
  show "str_of_int i \<noteq> []" by (simp add: str_of_int_def str_of_nat_not_empty)
  have "last (str_of_int i) = last (str_of_nat (nat (if i < 0 then - i else i)))"
    by (simp add: str_of_int_def str_of_nat_not_empty)
  then show "\<not> is_space (last (str_of_int i))"
    using str_of_nat_last digit_not_space by simp
qed

lemma as_pair_both_languages:
  assumes "acceptable_text t"
  shows "both_languages (as_pair t)"
proof (cases "typeof t = TObject")
  case True
  with assms show ?thesis by (simp add: as_pair_def acceptable_text_def)
next
  case False
  with assms have "has_language (JStr (to_str (js_or t (JStr []))))"
    using str_of_int_not_blank
    by (cases t) (auto simp: acceptable_text_def js_or_def trim_def is_space_def)
  with False show ?thesis by (simp add: as_pair_def both_languages_def)
qed

section \<open>A run without a report is followed by runs without a report\<close>

text \<open>
  The canonical shape is what a silent run certifies of its input, and what a run on a
  canonical document returns; the lemmas below follow the validators and the processor
  entity by entity.
\<close>

lemma validate_each_clean_iff:
  assumes "\<And>x j. (\<exists>r. f x j = Inr r \<and> clean r) \<longleftrightarrow> Q x"
  shows "validate_each f i xs = Inr ([], []) \<longleftrightarrow> list_all Q xs"
proof (induction xs arbitrary: i)
  case Nil
  show ?case by simp
next
  case (Cons x xs)
  have "validate_each f i (x # xs) = Inr ([], []) \<longleftrightarrow>
        (\<exists>r. f x i = Inr r \<and> clean r) \<and> validate_each f (Suc i) xs = Inr ([], [])"
    by (auto simp: try_bind_Inr clean_def)
  with assms[of x i] Cons.IH[of "Suc i"] show ?case by simp
qed

lemma enumerate_member: "(i, x) \<in> set (enumerate n xs) \<Longrightarrow> x \<in> set xs"
  by (auto simp: in_set_enumerate_eq)

lemma member_enumerate: "x \<in> set xs \<Longrightarrow> \<exists>i. (i, x) \<in> set (enumerate n xs)"
proof -
  assume "x \<in> set xs"
  then obtain j where "j < length xs" "xs ! j = x" by (auto simp: in_set_conv_nth)
  then have "(n + j, x) \<in> set (enumerate n xs)" by (simp add: in_set_enumerate_eq)
  then show ?thesis ..
qed

lemma map_recording_ok:
  assumes "\<And>x i. x \<in> set xs \<Longrightarrow> fst (f x i) = [] \<and> Q (snd (f x i))"
  shows "fst (map_recording f xs) = [] \<and> list_all Q (snd (map_recording f xs))"
  using assms by (auto simp: map_recording_def list_all_iff dest: enumerate_member)

lemma map_recording_silent:
  assumes "fst (map_recording f xs) = []" "x \<in> set xs"
  shows "\<exists>i. fst (f x i) = []"
proof -
  from member_enumerate[OF assms(2), of 0] obtain i where "(i, x) \<in> set (enumerate 0 xs)" ..
  with assms(1) have "fst (f x i) = []" by (auto simp: map_recording_def)
  then show ?thesis ..
qed

lemma get_prop_simp [simp]: "\<not> nullish v \<Longrightarrow> get_prop v k = Inr (prop_of v k)"
  by (simp add: get_prop_def)

lemma get_prop_nullish [simp]: "nullish v \<Longrightarrow> get_prop v k = Inl TypeError"
  by (simp add: get_prop_def)

lemma speaker_clean_iff:
  "(\<exists>r. validateBilingualSpeaker sp c = Inr r \<and> clean r) \<longleftrightarrow> speaker_ok sp"
proof (cases "nullish sp")
  case True
  then show ?thesis by (simp add: validateBilingualSpeaker_def try_bind_def speaker_ok_def)
next
  case False
  then show ?thesis
    using text_clean_iff[of "prop_of sp ''name''" "''speaker.name''"]
      text_clean_iff[of "prop_of sp ''roleOrg''" "''speaker.roleOrg''"]
    by (auto simp: validateBilingualSpeaker_def try_bind_def speaker_ok_def Let_def clean_def)
qed

lemma prop_of_spread_with1:
  "prop_of (spread_with (JObj kvs) [(k1, v1)]) k = (if k = k1 then v1 else prop_of (JObj kvs) k)"
  by (simp add: spread_with_def update_conv')

lemma prop_of_spread_with2:
  "prop_of (spread_with (JObj kvs) [(k1, v1), (k2, v2)]) k =
     (if k = k2 then v2 else if k = k1 then v1 else prop_of (JObj kvs) k)"
  by (simp add: spread_with_def update_conv')

lemma not_nonempty_string_object:
  assumes "\<not> not_nonempty_string (prop_of v k)" "\<not> is_digit (last k)" "k \<noteq> ''length''"
  shows "\<exists>kvs. v = JObj kvs"
proof -
  from assms(1) have "prop_of v k \<noteq> JUndefined" by (auto simp: not_nonempty_string_def)
  from object_of_prop[OF this assms(2,3)] show ?thesis by blast
qed

lemma acceptable_text_object:
  assumes "acceptable_text (prop_of v k)" "\<not> is_digit (last k)" "k \<noteq> ''length''"
  shows "\<exists>kvs. v = JObj kvs"
proof -
  from assms(1) have "prop_of v k \<noteq> JUndefined" by (auto simp: acceptable_text_def)
  from object_of_prop[OF this assms(2,3)] show ?thesis by blast
qed

lemma both_acceptable: "both_languages t \<Longrightarrow> acceptable_text t"
  by (auto simp: both_languages_def acceptable_text_def)

lemma speaker_processed:
  assumes "speaker_ok sp"
  shows "fst (process_speaker cat i sp j) = [] \<and> speaker_ok (snd (process_speaker cat i sp j))"
proof -
  from assms have nn: "\<not> nullish sp" and idok: "\<not> not_nonempty_string (prop_of sp ''id'')"
    by (simp_all add: speaker_ok_def)
  from not_nonempty_string_object[OF idok] obtain kvs where sp: "sp = JObj kvs"
    by (auto simp: is_digit_def)
  let ?n = "as_pair (prop_of (JObj kvs) ''name'')" and ?r = "as_pair (prop_of (JObj kvs) ''roleOrg'')"
  have p: "process_speaker cat i (JObj kvs) j =
      ([], spread_with (JObj kvs) [(''name'', ?n), (''roleOrg'', ?r)])"
    by (simp add: process_speaker_def try_bind_def get_prop_def)
  have a: "acceptable_text ?n" "acceptable_text ?r"
    using assms unfolding sp speaker_ok_def
    by (auto intro: both_acceptable as_pair_both_languages)
  have "speaker_ok (spread_with (JObj kvs) [(''name'', ?n), (''roleOrg'', ?r)])"
    using assms a unfolding sp speaker_ok_def prop_of_spread_with2
    by (simp add: spread_with_def del: prop_of.simps)
  with p show ?thesis by (simp add: sp)
qed

lemma session_clean_iff:
  "(\<exists>r. validateBilingualSession s c = Inr r \<and> clean r) \<longleftrightarrow> session_ok s"
proof (cases "nullish s")
  case True
  then show ?thesis by (simp add: validateBilingualSession_def try_bind_def session_ok_def)
next
  case False
  let ?room = "if truthy (prop_of s ''room'')
               then validateBilingualText (prop_of s ''room'') ''session.room'' False
               else \<lparr>isValid = True, errors = [], warnings = []\<rparr>"
  define errs0 where "errs0 =
     (if not_nonempty_string (prop_of s ''timeSlot'')
      then [mk_error ''session.timeSlot''
              ''Session timeSlot is required and must be a non-empty string'' (Some c)]
      else []) @
     errors (validateBilingualText (prop_of s ''date'') ''session.date'' True) @
     errors (validateBilingualText (prop_of s ''title'') ''session.title'' True) @
     errors (validateBilingualText (prop_of s ''content'') ''session.content'' True) @
     errors ?room"
  define warns0 where "warns0 =
     warnings (validateBilingualText (prop_of s ''date'') ''session.date'' True) @
     warnings (validateBilingualText (prop_of s ''title'') ''session.title'' True) @
     warnings (validateBilingualText (prop_of s ''content'') ''session.content'' True) @
     warnings ?room"
  define each where "each = (\<lambda>sps. validate_each (\<lambda>speaker index. validateBilingualSpeaker speaker
               (c @ ''.speakers['' @ str_of_nat index @ '']'')) 0 sps)"
  have unfold: "validateBilingualSession s c =
     (case prop_of s ''speakers'' of
        JArr sps \<Rightarrow> try_bind (each sps) (\<lambda>(es, ws).
          Inr \<lparr>isValid = (errs0 @ es = []), errors = errs0 @ es, warnings = warns0 @ ws\<rparr>)
      | _ \<Rightarrow> Inr \<lparr>isValid = (errs0 @ [mk_error ''session.speakers''
                    ''Session speakers must be an array'' (Some c)] = []),
                   errors = errs0 @ [mk_error ''session.speakers''
                    ''Session speakers must be an array'' (Some c)],
                   warnings = warns0\<rparr>)"
  proof -
    have g: "get_prop s k = Inr (prop_of s k)" for k using False by (simp add: get_prop_def)
    show ?thesis
      unfolding validateBilingualSession_def g Let_def errs0_def warns0_def each_def
      by (simp only: try_bind_def sum.case)
  qed
  have fields: "errs0 = [] \<and> warns0 = [] \<longleftrightarrow>
      \<not> not_nonempty_string (prop_of s ''timeSlot'') \<and>
      acceptable_text (prop_of s ''date'') \<and> acceptable_text (prop_of s ''title'') \<and>
      acceptable_text (prop_of s ''content'') \<and>
      (truthy (prop_of s ''room'') \<longrightarrow>
         clean (validateBilingualText (prop_of s ''room'') ''session.room'' False))"
    unfolding errs0_def warns0_def
      text_clean_iff[of "prop_of s ''date''" "''session.date''", symmetric]
      text_clean_iff[of "prop_of s ''title''" "''session.title''", symmetric]
      text_clean_iff[of "prop_of s ''content''" "''session.content''", symmetric]
      clean_def
    by (cases "truthy (prop_of s ''room'')"; cases "not_nonempty_string (prop_of s ''timeSlot'')")
       (simp_all, blast+)
  show ?thesis
  proof (cases "isArray (prop_of s ''speakers'')")
    case True
    then obtain sps where sps: "prop_of s ''speakers'' = JArr sps"
      by (cases "prop_of s ''speakers''") auto
    have v: "each sps = Inr ([], []) \<longleftrightarrow> list_all speaker_ok sps"
      unfolding each_def by (rule validate_each_clean_iff) (rule speaker_clean_iff)
    have "(\<exists>r. validateBilingualSession s c = Inr r \<and> clean r) \<longleftrightarrow>
          (errs0 = [] \<and> warns0 = []) \<and> each sps = Inr ([], [])"
      unfolding unfold sps by (auto simp: try_bind_Inr clean_def)
    with v fields False sps show ?thesis by (simp add: session_ok_def elements_def)
  next
    case na: False
    then have "\<not> (\<exists>r. validateBilingualSession s c = Inr r \<and> clean r)"
      unfolding unfold by (cases "prop_of s ''speakers''") (auto simp: clean_def)
    with na show ?thesis by (simp add: session_ok_def)
  qed
qed

lemma session_processed:
  assumes "session_ok s"
  shows "fst (process_session cat s i) = [] \<and> session_ok (snd (process_session cat s i))"
proof -
  from assms have ts: "\<not> not_nonempty_string (prop_of s ''timeSlot'')"
    by (simp add: session_ok_def)
  from not_nonempty_string_object[OF ts] obtain kvs where s: "s = JObj kvs"
    by (auto simp: is_digit_def)
  from assms obtain sps where sps: "prop_of (JObj kvs) ''speakers'' = JArr sps"
    and ok: "list_all speaker_ok sps"
    unfolding s session_ok_def by (cases "prop_of (JObj kvs) ''speakers''") (auto simp: elements_def)
  let ?m = "map_recording (process_speaker cat i) sps"
  have m: "fst ?m = [] \<and> list_all speaker_ok (snd ?m)"
    using ok by (intro map_recording_ok speaker_processed) (simp add: list_all_iff)
  have p: "process_session cat (JObj kvs) i =
      (fst ?m, spread_with (JObj kvs) [(''speakers'', JArr (snd ?m))])"
    using sps
    by (simp add: process_session_def try_bind_def get_prop_def array_or_empty_def js_or_def
        split_def del: prop_of.simps)
  have "session_ok (spread_with (JObj kvs) [(''speakers'', JArr (snd ?m))])"
    using assms m unfolding s session_ok_def prop_of_spread_with1
    by (simp add: spread_with_def elements_def del: prop_of.simps)
  with p m show ?thesis by (simp add: s)
qed

lemma bucket_clean_iff:
  "validate_session_bucket sv k = Inr ([], []) \<longleftrightarrow> bucket_ok (prop_of sv k)"
proof (cases "prop_of sv k")
  case (JArr ss)
  have "validate_each (\<lambda>session index. validateBilingualSession session
          (''sessions.'' @ k @ ''['' @ str_of_nat index @ '']'')) 0 ss = Inr ([], []) \<longleftrightarrow>
        list_all session_ok ss"
    by (rule validate_each_clean_iff) (rule session_clean_iff)
  with JArr show ?thesis by (simp add: validate_session_bucket_def bucket_ok_def elements_def)
qed (simp_all add: validate_session_bucket_def bucket_ok_def)

lemma bucket_processed:
  assumes "bucket_ok (prop_of sv k)"
  shows "fst (process_bucket sv k) = [] \<and> bucket_ok (snd (process_bucket sv k))"
proof -
  from assms obtain ss where ss: "prop_of sv k = JArr ss" and ok: "list_all session_ok ss"
    by (cases "prop_of sv k") (auto simp: bucket_ok_def elements_def)
  let ?m = "map_recording (process_session k) ss"
  have m: "fst ?m = [] \<and> list_all session_ok (snd ?m)"
    using ok by (intro map_recording_ok session_processed) (simp add: list_all_iff)
  have "process_bucket sv k = (fst ?m, JArr (snd ?m))"
    using ss by (simp add: process_bucket_def array_or_empty_def js_or_def split_def)
  with m show ?thesis by (simp add: bucket_ok_def elements_def)
qed

lemma day_clean_iff:
  "(\<exists>r. validateBilingualDay day c = Inr r \<and> clean r) \<longleftrightarrow>
   \<not> nullish day \<and> acceptable_text (prop_of day ''date'') \<and>
   acceptable_text (prop_of day ''title'') \<and> acceptable_text (prop_of day ''url'')"
proof (cases "nullish day")
  case True
  then show ?thesis by (simp add: validateBilingualDay_def try_bind_def)
next
  case False
  then show ?thesis
    unfolding text_clean_iff[of "prop_of day ''date''" "''day.date''", symmetric]
      text_clean_iff[of "prop_of day ''title''" "''day.title''", symmetric]
      text_clean_iff[of "prop_of day ''url''" "''day.url''", symmetric]
    by (simp add: validateBilingualDay_def try_bind_def Let_def clean_def get_prop_def) blast
qed

lemma category_clean_iff:
  "(\<exists>r. validateBilingualCategory cat c = Inr r \<and> clean r) \<longleftrightarrow> category_ok cat"
proof (cases "nullish cat")
  case True
  then show ?thesis by (simp add: validateBilingualCategory_def try_bind_def category_ok_def)
next
  case False
  then show ?thesis
    unfolding category_ok_def
      text_clean_iff[of "prop_of cat ''name''" "''category.name''", symmetric]
      text_clean_iff[of "prop_of cat ''room''" "''category.room''", symmetric]
    by (simp add: validateBilingualCategory_def try_bind_def Let_def clean_def get_prop_def) blast
qed

lemma safeGet_silent_object:
  assumes "acceptable_text u" "fst (safeGetBilingualText u l fb) = []"
  shows "both_languages u"
proof (cases "typeof u = TObject")
  case True
  with assms(1) show ?thesis by (simp add: acceptable_text_def)
next
  case False
  with assms have False
    by (simp add: safeGetBilingualText_def acceptable_text_def)
  then show ?thesis ..
qed

lemma safeGet_both:
  assumes "both_languages u"
  shows "\<exists>e z. prop_of u ''en'' = JStr e \<and> prop_of u ''zh'' = JStr z \<and>
               trim e \<noteq> [] \<and> trim z \<noteq> [] \<and>
               safeGetBilingualText u EN fb = ([], trim e) \<and>
               safeGetBilingualText u ZH fb = ([], trim z)"
proof -
  from assms obtain e z where e: "prop_of u ''en'' = JStr e" "trim e \<noteq> []"
    and z: "prop_of u ''zh'' = JStr z" "trim z \<noteq> []"
    unfolding both_languages_def
    by (cases "prop_of u ''en''"; cases "prop_of u ''zh''") auto
  from e(1) have "prop_of u ''en'' \<noteq> JUndefined" by simp
  from object_of_prop[OF this] obtain kvs where u: "u = JObj kvs" and m: "map_of kvs ''en'' = Some (JStr e)"
    using e(1) by (auto simp: is_digit_def)
  from m have hk: "has_key ''en'' (JObj kvs)"
    by (simp add: image_iff) (metis fst_conv map_of_SomeD)
  have "safeGetBilingualText (JObj kvs) EN fb = ([], trim e) \<and>
        safeGetBilingualText (JObj kvs) ZH fb = ([], trim z)"
    using e z hk unfolding u
    by (simp add: safeGetBilingualText_def trim_opt_def try_bind_def js_or_def Let_def
        del: prop_of.simps has_key.simps)
  with e z u show ?thesis by blast
qed

lemma day_processed:
  assumes "day_ok day"
  shows "fst (process_day day i) = [] \<and> day_ok (snd (process_day day i))"
proof -
  from assms have nn: "\<not> nullish day" and d: "acceptable_text (prop_of day ''date'')"
    and b: "both_languages (prop_of day ''url'')"
    by (simp_all add: day_ok_def)
  from acceptable_text_object[OF d] obtain kvs where day: "day = JObj kvs"
    by (auto simp: is_digit_def)
  from safeGet_both[OF b, of "[]"] obtain e z where
    ez: "trim e \<noteq> []" "trim z \<noteq> []"
      "safeGetBilingualText (prop_of day ''url'') EN [] = ([], trim e)"
      "safeGetBilingualText (prop_of day ''url'') ZH [] = ([], trim z)"
    by blast
  let ?u = "JObj [(''en'', JStr (trim e)), (''zh'', JStr (trim z))]"
  have p: "process_day day i = ([], spread_with day [(''url'', ?u)])"
    using nn ez by (simp add: process_day_def get_prop_def)
  have "both_languages ?u" using ez by (simp add: both_languages_def trim_trim)
  then have "day_ok (spread_with (JObj kvs) [(''url'', ?u)])"
    using assms unfolding day day_ok_def prop_of_spread_with1
    by (simp add: spread_with_def del: prop_of.simps)
  with p show ?thesis by (simp add: day)
qed

lemma day_silent_ok:
  assumes "validateBilingualDay day c = Inr r" "clean r" "fst (process_day day i) = []"
  shows "day_ok day"
proof -
  from assms(1,2) have c: "\<not> nullish day" "acceptable_text (prop_of day ''date'')"
    "acceptable_text (prop_of day ''title'')" "acceptable_text (prop_of day ''url'')"
    using day_clean_iff[of day c] by blast+
  from assms(3) c(1) have "fst (safeGetBilingualText (prop_of day ''url'') EN []) = []"
    by (simp add: process_day_def get_prop_def split_def)
  from safeGet_silent_object[OF c(4) this] c show ?thesis by (simp add: day_ok_def)
qed

lemma day_ok_clean: "day_ok day \<Longrightarrow> \<exists>r. validateBilingualDay day c = Inr r \<and> clean r"
  unfolding day_clean_iff by (simp add: day_ok_def both_acceptable)

lemma category_ok_object: "category_ok c \<Longrightarrow> \<exists>kvs. c = JObj kvs"
proof -
  assume "category_ok c"
  then have "acceptable_text (prop_of c ''name'')" by (simp add: category_ok_def)
  from acceptable_text_object[OF this] show ?thesis by (auto simp: is_digit_def)
qed

lemma categories_unchanged:
  "list_all category_ok cs \<Longrightarrow> map (\<lambda>c. spread_with c []) cs = cs"
proof (induction cs)
  case Nil
  show ?case by simp
next
  case (Cons c cs)
  then obtain kvs where "c = JObj kvs" using category_ok_object[of c] by auto
  with Cons show ?case by (simp add: spread_with_def)
qed

lemma validate_categories_clean:
  "validate_categories i S cs = Inr ([], []) \<Longrightarrow> list_all category_ok cs"
proof (induction cs arbitrary: i S)
  case Nil
  show ?case by simp
next
  case (Cons c cs)
  from validate_categories_Cons[OF Cons.prems] obtain r es' ws' where
    r: "validateBilingualCategory c (''categories['' @ str_of_nat i @ '']'') = Inr r"
    and rest: "validate_categories (Suc i)
       (if truthy (prop_of c ''id'') \<and> \<not> set_has S (prop_of c ''id'') then S @ [prop_of c ''id''] else S) cs
       = Inr (es', ws')"
    and e: "[] = errors r @
       (if truthy (prop_of c ''id'') \<and> set_has S (prop_of c ''id'')
        then [duplicate_category_error (prop_of c ''id'') i] else []) @ es'"
    and w: "[] = warnings r @ ws'"
    by blast
  from e w have c: "clean r" and n: "es' = []" "ws' = []" by (simp_all add: clean_def)
  from r c have "category_ok c" using category_clean_iff[of c] by blast
  moreover from rest n have "list_all category_ok cs" using Cons.IH by simp
  ultimately show ?case by simp
qed

lemma session_keys_clean_iff:
  "validate_session_keys sv S ks = Inr ([], []) \<longleftrightarrow>
   list_all (\<lambda>k. set_has S (JStr k) \<and> bucket_ok (prop_of sv k)) ks"
proof (induction ks)
  case Nil
  show ?case by simp
next
  case (Cons k ks)
  have "validate_session_keys sv S (k # ks) = Inr ([], []) \<longleftrightarrow>
        set_has S (JStr k) \<and> validate_session_bucket sv k = Inr ([], []) \<and>
        validate_session_keys sv S ks = Inr ([], [])"
    by (cases "validate_session_bucket sv k"; cases "validate_session_keys sv S ks")
       (auto simp: try_bind_def Let_def simp del: set_has_JStr)
  then show ?case using Cons.IH by (simp add: bucket_clean_iff del: set_has_JStr)
qed

lemma set_update_subset: "set (AList.update k v al) \<subseteq> insert (k, v) (set al)"
  by (induction al) auto

lemma process_buckets_ok:
  assumes "list_all (\<lambda>k. P k \<and> bucket_ok (prop_of sv k)) ks"
    and "\<And>k v. (k, v) \<in> set acc \<Longrightarrow> P k \<and> bucket_ok v"
  shows "fst (process_buckets sv ks acc) = [] \<and>
         (\<forall>(k, v) \<in> set (snd (process_buckets sv ks acc)). P k \<and> bucket_ok v)"
  using assms
proof (induction ks arbitrary: acc)
  case Nil
  then show ?case by auto
next
  case (Cons k ks)
  from Cons.prems(1) have k: "P k" "bucket_ok (prop_of sv k)"
    and ks: "list_all (\<lambda>k. P k \<and> bucket_ok (prop_of sv k)) ks" by simp_all
  from bucket_processed[OF k(2)] have b: "fst (process_bucket sv k) = []"
    "bucket_ok (snd (process_bucket sv k))" by simp_all
  let ?acc = "AList.update k (snd (process_bucket sv k)) acc"
  have "\<And>k' v. (k', v) \<in> set ?acc \<Longrightarrow> P k' \<and> bucket_ok v"
    using set_update_subset[of k "snd (process_bucket sv k)" acc] Cons.prems(2) k(1) b(2)
    by blast
  from Cons.IH[OF ks this] b(1) show ?case
    by (simp add: split_def)
qed

lemma document_clean_iff:
  "(\<exists>r. validateBilingualScheduleData d = Inr r \<and> clean r) \<longleftrightarrow>
   truthy d \<and> typeof d = TObject \<and> validate_days_block d = Inr ([], []) \<and>
   validate_categories_block d = Inr ([], []) \<and> validate_sessions_block d = Inr ([], [])"
proof (cases "truthy d \<and> typeof d = TObject")
  case False
  then show ?thesis by (auto simp: validateBilingualScheduleData_def clean_def)
next
  case True
  then show ?thesis
    by (cases "validate_days_block d"; cases "validate_categories_block d";
        cases "validate_sessions_block d")
       (auto simp: validateBilingualScheduleData_def clean_def try_bind_def Let_def)
qed

lemma days_block_clean_iff:
  "validate_days_block d = Inr ([], []) \<longleftrightarrow>
   isArray (prop_of d ''days'') \<and>
   list_all (\<lambda>day. \<not> nullish day \<and> acceptable_text (prop_of day ''date'') \<and>
                   acceptable_text (prop_of day ''title'') \<and> acceptable_text (prop_of day ''url''))
     (elements (prop_of d ''days''))"
proof (cases "prop_of d ''days''")
  case (JArr ds)
  have "validate_each (\<lambda>day index. validateBilingualDay day (''days['' @ str_of_nat index @ '']'')) 0 ds
          = Inr ([], []) \<longleftrightarrow>
        list_all (\<lambda>day. \<not> nullish day \<and> acceptable_text (prop_of day ''date'') \<and>
                   acceptable_text (prop_of day ''title'') \<and> acceptable_text (prop_of day ''url'')) ds"
    by (rule validate_each_clean_iff) (rule day_clean_iff)
  with JArr show ?thesis by (simp add: validate_days_block_def elements_def)
qed (simp_all add: validate_days_block_def)

lemma categories_block_clean_iff:
  "validate_categories_block d = Inr ([], []) \<longleftrightarrow>
   isArray (prop_of d ''categories'') \<and>
   validate_categories 0 [] (elements (prop_of d ''categories'')) = Inr ([], [])"
  by (cases "prop_of d ''categories''") (simp_all add: validate_categories_block_def elements_def)

lemma sessions_block_clean_iff:
  "validate_sessions_block d = Inr ([], []) \<longleftrightarrow>
   truthy (prop_of d ''sessions'') \<and> typeof (prop_of d ''sessions'') = TObject \<and>
   (\<exists>categoryIds. category_id_set (prop_of d ''categories'') = Inr categoryIds \<and>
      list_all (\<lambda>k. set_has categoryIds (JStr k) \<and> bucket_ok (prop_of (prop_of d ''sessions'') k))
        (object_keys (prop_of d ''sessions'')))"
proof (cases "truthy (prop_of d ''sessions'') \<and> typeof (prop_of d ''sessions'') = TObject")
  case False
  then show ?thesis by (auto simp: validate_sessions_block_def Let_def)
next
  case True
  then show ?thesis
    by (cases "category_id_set (prop_of d ''categories'')")
       (simp_all add: validate_sessions_block_def Let_def try_bind_def session_keys_clean_iff
          del: set_has_JStr)
qed

lemma truthy_not_nullish: "truthy v \<Longrightarrow> \<not> nullish v"
  by (cases v) simp_all

lemma array_or_empty_array [simp]: "array_or_empty (JArr xs) = Inr xs"
  by (simp add: array_or_empty_def js_or_def)

lemma silent_run_body:
  assumes "fst (safeProcessBilingualSchedule d l) = []"
  shows "\<exists>r. safe_process_body d = ([], Inr r)"
proof (cases "safe_process_body d")
  case (Pair log res)
  with assms show ?thesis
    by (cases res) (simp_all add: safeProcessBilingualSchedule_def)
qed

lemma body_run:
  "safeProcessBilingualSchedule d l = ([], Inr r) \<longleftrightarrow> safe_process_body d = ([], Inr r)"
proof (cases "safe_process_body d")
  case (Pair log res)
  then show ?thesis
    by (cases res) (auto simp: safeProcessBilingualSchedule_def)
qed

lemma silent_body_parts:
  assumes "safe_process_body d = ([], Inr r)"
  obtains v ds where "validateBilingualScheduleData d = Inr v"
    "(if \<not> isValid v then map forward (errors v) else []) = []" "warnings v = []"
    "try_bind (get_prop d ''days'') array_or_empty = Inr ds"
    "fst (map_recording process_day ds) = []"
proof -
  from assms obtain w1 v w2 where
    1: "expr (validateBilingualScheduleData d) = (w1 :: invocation list, Inr v)" and
    2: "and_then ((if \<not> isValid v then map forward (errors v) else []) @
               map forward (warnings v), Inr ()) (\<lambda>_.
     and_then (expr (try_bind (get_prop d ''days'') array_or_empty)) (\<lambda>days.
     and_then (case map_recording process_day days of (log, processedDays) \<Rightarrow>
                 (log, Inr processedDays)) (\<lambda>processedDays.
     and_then (expr (try_bind (get_prop d ''categories'') array_or_empty)) (\<lambda>categories.
     and_then (expr (get_prop d ''sessions'')) (\<lambda>sessionsVal.
       case process_buckets sessionsVal (object_keys (js_or sessionsVal (JObj []))) [] of
         (log, processedSessions) \<Rightarrow>
           (log, Inr (JObj [(''days'', JArr processedDays),
                            (''categories'', JArr (map (\<lambda>category. spread_with category []) categories)),
                            (''sessions'', JObj processedSessions)]))))))) = (w2, Inr r)"
    and 3: "[] = w1 @ w2"
    unfolding safe_process_body_def and_then_Inr[of "expr (validateBilingualScheduleData d)"]
    by blast
  from 1 have v: "validateBilingualScheduleData d = Inr v" by (simp add: expr_Inr)
  from 3 have w2: "w2 = []" by simp
  from 2[unfolded w2 and_then_Inr[of "(_, Inr ())"]] obtain w3 w4 where
    4: "(if \<not> isValid v then map forward (errors v) else []) @ map forward (warnings v) = w3"
    and 5: "and_then (expr (try_bind (get_prop d ''days'') array_or_empty)) (\<lambda>days.
     and_then (case map_recording process_day days of (log, processedDays) \<Rightarrow>
                 (log, Inr processedDays)) (\<lambda>processedDays.
     and_then (expr (try_bind (get_prop d ''categories'') array_or_empty)) (\<lambda>categories.
     and_then (expr (get_prop d ''sessions'')) (\<lambda>sessionsVal.
       case process_buckets sessionsVal (object_keys (js_or sessionsVal (JObj []))) [] of
         (log, processedSessions) \<Rightarrow>
           (log, Inr (JObj [(''days'', JArr processedDays),
                            (''categories'', JArr (map (\<lambda>category. spread_with category []) categories)),
                            (''sessions'', JObj processedSessions)])))))) = (w4, Inr r)"
    and 6: "[] = w3 @ w4"
    by auto
  from 6 have w3: "w3 = []" and w4: "w4 = []" by simp_all
  from 5[unfolded w4 and_then_Inr[of "expr (try_bind (get_prop d ''days'') array_or_empty)"]]
  obtain w5 ds w6 where
    7: "expr (try_bind (get_prop d ''days'') array_or_empty) = (w5 :: invocation list, Inr ds)"
    and 8: "and_then (case map_recording process_day ds of (log, processedDays) \<Rightarrow>
                 (log, Inr processedDays)) (\<lambda>processedDays.
     and_then (expr (try_bind (get_prop d ''categories'') array_or_empty)) (\<lambda>categories.
     and_then (expr (get_prop d ''sessions'')) (\<lambda>sessionsVal.
       case process_buckets sessionsVal (object_keys (js_or sessionsVal (JObj []))) [] of
         (log, processedSessions) \<Rightarrow>
           (log, Inr (JObj [(''days'', JArr processedDays),
                            (''categories'', JArr (map (\<lambda>category. spread_with category []) categories)),
                            (''sessions'', JObj processedSessions)]))))) = (w6, Inr r)"
    and 9: "[] = w5 @ w6"
    by blast
  from 7 have ds: "try_bind (get_prop d ''days'') array_or_empty = Inr ds" by (simp add: expr_Inr)
  from 9 have w6: "w6 = []" by simp
  from 8[unfolded w6] have "fst (and_then (case map_recording process_day ds of (log, processedDays) \<Rightarrow>
                 (log, Inr processedDays)) (\<lambda>processedDays.
     and_then (expr (try_bind (get_prop d ''categories'') array_or_empty)) (\<lambda>categories.
     and_then (expr (get_prop d ''sessions'')) (\<lambda>sessionsVal.
       case process_buckets sessionsVal (object_keys (js_or sessionsVal (JObj []))) [] of
         (log, processedSessions) \<Rightarrow>
           (log, Inr (JObj [(''days'', JArr processedDays),
                            (''categories'', JArr (map (\<lambda>category. spread_with category []) categories)),
                            (''sessions'', JObj processedSessions)])))))) = []"
    by simp
  then have m: "fst (map_recording process_day ds) = []"
    unfolding fst_and_then[of "case map_recording process_day ds of (log, processedDays) \<Rightarrow>
                 (log, Inr processedDays)"]
    by (simp add: split_def)
  from 4 w3 have "(if \<not> isValid v then map forward (errors v) else []) = []" "warnings v = []"
    by simp_all
  with v ds m that show ?thesis by blast
qed

lemma silent_run_canonical:
  assumes "fst (safeProcessBilingualSchedule d l) = []"
  shows "canonical d"
proof -
  from silent_run_body[OF assms] obtain r where "safe_process_body d = ([], Inr r)" ..
  from silent_body_parts[OF this] obtain v ds where
    v: "validateBilingualScheduleData d = Inr v"
    and e: "(if \<not> isValid v then map forward (errors v) else []) = []"
    and w: "warnings v = []"
    and ds: "try_bind (get_prop d ''days'') array_or_empty = Inr ds"
    and m: "fst (map_recording process_day ds) = []"
    by blast
  from validateBilingualScheduleData_isValid[OF v] e have "errors v = []"
    by (cases "errors v = []") simp_all
  with w have "clean v" by (simp add: clean_def)
  with v have "\<exists>r. validateBilingualScheduleData d = Inr r \<and> clean r" by blast
  then have t: "truthy d" "typeof d = TObject"
    and db: "validate_days_block d = Inr ([], [])"
    and cb: "validate_categories_block d = Inr ([], [])"
    and sb: "validate_sessions_block d = Inr ([], [])"
    unfolding document_clean_iff by simp_all
  from db obtain ds0 where ds0: "prop_of d ''days'' = JArr ds0"
    and q: "list_all (\<lambda>day. \<not> nullish day \<and> acceptable_text (prop_of day ''date'') \<and>
                   acceptable_text (prop_of day ''title'') \<and> acceptable_text (prop_of day ''url'')) ds0"
    unfolding days_block_clean_iff
    by (cases "prop_of d ''days''") (simp_all add: elements_def)
  from ds ds0 truthy_not_nullish[OF t(1)] have [simp]: "ds0 = ds" by (simp add: try_bind_def)
  have "list_all day_ok ds"
    unfolding list_all_iff
  proof
    fix day assume day: "day \<in> set ds"
    with q have "\<not> nullish day \<and> acceptable_text (prop_of day ''date'') \<and>
                   acceptable_text (prop_of day ''title'') \<and> acceptable_text (prop_of day ''url'')"
      by (simp add: list_all_iff)
    then obtain r where r: "validateBilingualDay day [] = Inr r" "clean r"
      using day_clean_iff[of day "[]"] by blast
    from map_recording_silent[OF m day] obtain i where "fst (process_day day i) = []" ..
    from day_silent_ok[OF r this] show "day_ok day" .
  qed
  with ds0 t cb sb show ?thesis
    unfolding canonical_def categories_block_clean_iff sessions_block_clean_iff
    by (simp add: elements_def)
qed

lemma canonical_run:
  assumes "canonical d"
  shows "\<exists>d'. safe_process_body d = ([], Inr d') \<and> canonical d'"
proof -
  define sv where "sv = prop_of d ''sessions''"
  from assms have t: "truthy d" "typeof d = TObject"
    and a: "isArray (prop_of d ''days'')" "list_all day_ok (elements (prop_of d ''days''))"
    and b: "isArray (prop_of d ''categories'')"
      "validate_categories 0 [] (elements (prop_of d ''categories'')) = Inr ([], [])"
    and s: "truthy sv" "typeof sv = TObject"
    and i: "\<exists>categoryIds. category_id_set (prop_of d ''categories'') = Inr categoryIds \<and>
         list_all (\<lambda>k. set_has categoryIds (JStr k) \<and> bucket_ok (prop_of sv k)) (object_keys sv)"
    unfolding canonical_def sv_def by blast+
  from a obtain ds where ds: "prop_of d ''days'' = JArr ds" "list_all day_ok ds"
    by (cases "prop_of d ''days''") (simp_all add: elements_def)
  from b obtain cs where cs: "prop_of d ''categories'' = JArr cs"
    "validate_categories 0 [] cs = Inr ([], [])"
    by (cases "prop_of d ''categories''") (simp_all add: elements_def)
  from i cs(1) obtain ids where ids: "category_id_set (JArr cs) = Inr ids"
    "list_all (\<lambda>k. set_has ids (JStr k) \<and> bucket_ok (prop_of sv k)) (object_keys sv)"
    by auto
  have nn: "\<not> nullish d" by (rule truthy_not_nullish[OF t(1)])
  have "list_all (\<lambda>day. \<not> nullish day \<and> acceptable_text (prop_of day ''date'') \<and>
                   acceptable_text (prop_of day ''title'') \<and> acceptable_text (prop_of day ''url'')) ds"
    using ds(2) by (simp add: list_all_iff day_ok_def both_acceptable)
  with t ds(1) cs s ids have "\<exists>r. validateBilingualScheduleData d = Inr r \<and> clean r"
    unfolding document_clean_iff days_block_clean_iff categories_block_clean_iff
      sessions_block_clean_iff sv_def[symmetric]
    by (simp add: elements_def del: set_has_JStr)
  then obtain r where r: "validateBilingualScheduleData d = Inr r" "clean r" by blast
  define ds' where "ds' = snd (map_recording process_day ds)"
  have "fst (map_recording process_day ds) = [] \<and> list_all day_ok (snd (map_recording process_day ds))"
    using ds(2) by (intro map_recording_ok) (simp add: list_all_iff day_processed)
  then have md: "map_recording process_day ds = ([], ds')" and ds': "list_all day_ok ds'"
    by (simp_all add: ds'_def prod_eq_iff)
  have cu: "map (\<lambda>c. spread_with c []) cs = cs"
    by (rule categories_unchanged[OF validate_categories_clean[OF cs(2)]])
  define ps where "ps = snd (process_buckets sv (object_keys sv) [])"
  have "fst (process_buckets sv (object_keys sv) []) = [] \<and>
        (\<forall>(k, v) \<in> set (snd (process_buckets sv (object_keys sv) [])). set_has ids (JStr k) \<and> bucket_ok v)"
    by (rule process_buckets_ok[OF ids(2)]) simp
  then have pb: "process_buckets sv (object_keys sv) [] = ([], ps)"
    and ps: "\<And>k v. (k, v) \<in> set ps \<Longrightarrow> set_has ids (JStr k) \<and> bucket_ok v"
    by (auto simp: ps_def prod_eq_iff simp del: set_has_JStr)
  define d' where "d' = JObj [(''days'', JArr ds'), (''categories'', JArr cs), (''sessions'', JObj ps)]"
  have sv_or: "js_or sv (JObj []) = sv" using s(1) by (simp add: js_or_def)
  have body: "safe_process_body d = ([], Inr d')"
    unfolding safe_process_body_def r(1)
    using nn ds(1) cs(1) md cu pb sv_or r(2)
    by (simp add: and_then_def expr_def try_bind_def d'_def sv_def[symmetric] clean_def)
  have keys: "list_all (\<lambda>k. set_has ids (JStr k) \<and> bucket_ok (prop_of (JObj ps) k))
                (object_keys (JObj ps))"
    unfolding list_all_iff
  proof
    fix k assume "k \<in> set (object_keys (JObj ps))"
    then have "k \<in> fst ` set ps" by (simp add: object_keys_def)
    then obtain v where "map_of ps k = Some v"
      by (cases "map_of ps k") (auto simp: map_of_eq_None_iff)
    moreover from this have "(k, v) \<in> set ps" by (rule map_of_SomeD)
    ultimately show "set_has ids (JStr k) \<and> bucket_ok (prop_of (JObj ps) k)"
      using ps[of k v] by (simp del: set_has_JStr)
  qed
  have "canonical d'"
    unfolding canonical_def d'_def
    using ds' cs ids(1) keys
    by (simp add: elements_def del: set_has_JStr prop_of.simps(1) add: prop_of.simps(1)[of _ "''days''"]
          prop_of.simps(1)[of _ "''categories''"] prop_of.simps(1)[of _ "''sessions''"]) 
  with body show ?thesis by blast
qed

lemma valid_test_run_silent: "fst (safeProcessBilingualSchedule testValidScheduleData EN) = []"
  by code_simp




section \<open>No exception leaves the safe processor\<close>

lemma malformed_test_body:
  "safe_process_body testMalformedScheduleData =
     ([(''Days must be an array'', None), (''Sessions must be an object'', None)], Inl TypeError)"
  by code_simp



end
